theory Spec2Isabelle
  imports Main "HOL-Library.Word" "HOL-Library.Mapping" "HOL-Library.AList_Mapping"
begin

section \<open>Machine integers\<close>

text \<open>
  Go's \<^verbatim>\<open>int\<close> is a 64-bit two's complement integer on the platforms the package
  targets.  Integers are modelled as \<^typ>\<open>int\<close>; where a sum can leave the 64-bit
  range (the caller-supplied \<^verbatim>\<open>count\<close> of \<^verbatim>\<open>Draw\<close>) the wrap-around is written out
  with \<open>int_wrap\<close>.
\<close>

definition int_wrap :: "int \<Rightarrow> int" where
  "int_wrap x = signed_take_bit 63 x"

section \<open>Cards and the deck (deck.go, \<^verbatim>\<open>Deck\<close>)\<close>

text \<open>
  A card is an external primitive built by \<^verbatim>\<open>New(rank, suit)\<close>; only its identity
  matters here.  \<open>No_card\<close> is the zero value of the type, which \<^verbatim>\<open>make\<close> fills a fresh
  slice with.
\<close>

datatype Card = New nat nat | No_card

record Deck =
  I :: int
  L :: int
  V :: "Card list"

text \<open>\<^verbatim>\<open>DeckOf(cards...)\<close>: the cursor is the zero value.\<close>

definition DeckOf :: "Card list \<Rightarrow> Deck" where
  "DeckOf cards = \<lparr>I = 0, L = int (length cards), V = cards\<rparr>"

definition Limit :: "Deck \<Rightarrow> int \<Rightarrow> Deck" where
  "Limit d limit = d\<lparr>L := limit\<rparr>"

definition Empty :: "Deck \<Rightarrow> bool" where
  "Empty d = (L d \<le> I d)"

definition Remaining :: "Deck \<Rightarrow> int" where
  "Remaining d = (let n = int_wrap (L d - I d) in if 0 \<le> n then n else 0)"

definition Reset :: "Deck \<Rightarrow> Deck" where
  "Reset d = d\<lparr>I := 0\<rparr>"

text \<open>
  The loop of \<^verbatim>\<open>Draw\<close>: \<^verbatim>\<open>for l := min(d.I+count, d.L); d.I < l; d.I++\<close>.
  Reading \<^verbatim>\<open>d.V[d.I]\<close> outside the slice is a run-time panic, the value \<open>None\<close>.
  Inside the loop \<open>I d < l\<close> and \<open>l\<close> is a machine integer, so \<^verbatim>\<open>d.I++\<close> cannot wrap.
\<close>

function Draw_loop :: "int \<Rightarrow> Deck \<Rightarrow> Card list \<Rightarrow> (Card list \<times> Deck) option" where
  "Draw_loop l d cards =
     (if I d < l then
        (if 0 \<le> I d \<and> I d < int (length (V d))
         then Draw_loop l (d\<lparr>I := I d + 1\<rparr>) (cards @ [V d ! nat (I d)])
         else None)
      else Some (cards, d))"
  by pat_completeness auto
termination
  by (relation "measure (\<lambda>(l, d, cards). nat (l - I d))") auto

declare Draw_loop.simps [simp del]

definition Draw :: "Deck \<Rightarrow> int \<Rightarrow> (Card list \<times> Deck) option" where
  "Draw d count =
     (if count < 0 then Some ([], d)
      else Draw_loop (min (int_wrap (I d + count)) (L d)) d [])"

text \<open>
  \<^verbatim>\<open>Shuffle\<close>: the shuffler is an external collaborator that, told the number of cards,
  calls \<^verbatim>\<open>swap(i, j)\<close> some number of times.  It is taken as a parameter: for each pass
  (numbered from 0) and length, the list of swaps it performs.  A swap outside the slice
  panics.
\<close>

type_synonym Shuffler = "nat \<Rightarrow> int \<Rightarrow> (int \<times> int) list"

fun swap :: "Deck \<Rightarrow> int \<times> int \<Rightarrow> Deck option" where
  "swap d (i, j) =
     (if 0 \<le> i \<and> i < int (length (V d)) \<and> 0 \<le> j \<and> j < int (length (V d))
      then Some (d\<lparr>V := (V d)[nat i := V d ! nat j, nat j := V d ! nat i]\<rparr>)
      else None)"

fun swaps :: "Deck \<Rightarrow> (int \<times> int) list \<Rightarrow> Deck option" where
  "swaps d [] = Some d"
| "swaps d (p # ps) = (case swap d p of None \<Rightarrow> None | Some d' \<Rightarrow> swaps d' ps)"

fun Shuffle_passes :: "Deck \<Rightarrow> Shuffler \<Rightarrow> nat list \<Rightarrow> Deck option" where
  "Shuffle_passes d shuffler [] = Some d"
| "Shuffle_passes d shuffler (k # ks) =
     (case swaps d (shuffler k (int (length (V d)))) of
        None \<Rightarrow> None
      | Some d' \<Rightarrow> Shuffle_passes d' shuffler ks)"

definition Shuffle :: "Deck \<Rightarrow> Shuffler \<Rightarrow> int \<Rightarrow> Deck option" where
  "Shuffle d shuffler n_shuffles = Shuffle_passes d shuffler [0 ..< nat n_shuffles]"

text \<open>A sequence of \<^verbatim>\<open>Draw\<close> calls on one deck, with the cards each call returned.\<close>

fun Draws :: "Deck \<Rightarrow> int list \<Rightarrow> (Card list list \<times> Deck) option" where
  "Draws d [] = Some ([], d)"
| "Draws d (c # cs) =
     (case Draw d c of
        None \<Rightarrow> None
      | Some (x, d') \<Rightarrow>
          (case Draws d' cs of
             None \<Rightarrow> None
           | Some (xs, d'') \<Rightarrow> Some (x # xs, d'')))"

section \<open>Runs (deck.go, \<^verbatim>\<open>Run\<close>)\<close>

text \<open>
  The dealer is modelled on the contents of its runs: a slice is the list of its
  elements, a \<^verbatim>\<open>*Run\<close> is the run it points to.  The storage behind the slices, on
  which the independence of \<^verbatim>\<open>Dupe\<close>'s result rests, is modelled separately below
  (\<open>Store\<close>, \<open>Dupe_h\<close>).
\<close>

record Run =
  Discard :: "Card list"
  Pockets :: "Card list list"
  Hi :: "Card list"
  Lo :: "Card list"

text \<open>\<^verbatim>\<open>NewRun(count)\<close>: \<^verbatim>\<open>make([][]Card, count)\<close> panics on a negative count.\<close>

definition NewRun :: "int \<Rightarrow> Run option" where
  "NewRun count =
     (if count < 0 then None
      else Some \<lparr>Discard = [], Pockets = replicate (nat count) [], Hi = [], Lo = []\<rparr>)"

text \<open>
  \<^verbatim>\<open>Dupe\<close>: \<^verbatim>\<open>r := new(Run)\<close>, then the pockets, \<^verbatim>\<open>Hi\<close> and \<^verbatim>\<open>Lo\<close> are copied element
  by element.  \<^verbatim>\<open>Discard\<close> is not assigned and keeps the zero value.
\<close>

definition Dupe :: "Run \<Rightarrow> Run" where
  "Dupe run =
     \<lparr>Discard = [],
      Pockets = map (\<lambda>i. Pockets run ! i) [0 ..< length (Pockets run)],
      Hi = Hi run,
      Lo = Lo run\<rparr>"

section \<open>The storage behind a run (deck.go, \<^verbatim>\<open>Run.Dupe\<close>)\<close>

text \<open>
  Whether two runs share storage is a matter of the arrays behind their slices.  A store
  holds the backing arrays, an address being an index into it: arrays of cards behind a
  \<^verbatim>\<open>[]Card\<close> and arrays of slice headers behind a \<^verbatim>\<open>[][]Card\<close>.  A slice is nil or an
  array's address with a length (every slice of a run starts at the head of its array);
  its capacity is the length of the array.  \<^verbatim>\<open>make\<close> appends a zeroed array to the store;
  \<^verbatim>\<open>copy(dst, src)\<close> overwrites the head of the array behind \<open>dst\<close>.
\<close>

datatype slice = Nil_slice | Slice nat nat

record Store =
  card_arrays :: "Card list list"
  row_arrays :: "slice list list"

record Run_h =
  Discard_h :: slice
  Pockets_h :: slice
  Hi_h :: slice
  Lo_h :: slice

definition len :: "slice \<Rightarrow> nat" where
  "len s = (case s of Nil_slice \<Rightarrow> 0 | Slice a n \<Rightarrow> n)"

definition cards_of :: "Store \<Rightarrow> slice \<Rightarrow> Card list" where
  "cards_of st s = (case s of Nil_slice \<Rightarrow> [] | Slice a n \<Rightarrow> take n (card_arrays st ! a))"

definition rows_of :: "Store \<Rightarrow> slice \<Rightarrow> slice list" where
  "rows_of st s = (case s of Nil_slice \<Rightarrow> [] | Slice a n \<Rightarrow> take n (row_arrays st ! a))"

definition make_cards :: "Store \<Rightarrow> nat \<Rightarrow> slice \<times> Store" where
  "make_cards st n =
     (Slice (length (card_arrays st)) n,
      st\<lparr>card_arrays := card_arrays st @ [replicate n No_card]\<rparr>)"

definition make_rows :: "Store \<Rightarrow> nat \<Rightarrow> slice \<times> Store" where
  "make_rows st n =
     (Slice (length (row_arrays st)) n,
      st\<lparr>row_arrays := row_arrays st @ [replicate n Nil_slice]\<rparr>)"

definition copy_cards :: "Store \<Rightarrow> slice \<Rightarrow> slice \<Rightarrow> Store" where
  "copy_cards st dst src =
     (case dst of
        Nil_slice \<Rightarrow> st
      | Slice a n \<Rightarrow>
          (let k = min n (len src) in
           st\<lparr>card_arrays :=
                (card_arrays st)[a := take k (cards_of st src) @ drop k (card_arrays st ! a)]\<rparr>))"

text \<open>\<^verbatim>\<open>s[i] = v\<close> on a \<^verbatim>\<open>[][]Card\<close>, for an index within the slice.\<close>

definition set_row :: "Store \<Rightarrow> slice \<Rightarrow> nat \<Rightarrow> slice \<Rightarrow> Store" where
  "set_row st s i v =
     (case s of
        Nil_slice \<Rightarrow> st
      | Slice a n \<Rightarrow> st\<lparr>row_arrays := (row_arrays st)[a := (row_arrays st ! a)[i := v]]\<rparr>)"

text \<open>
  The loop of \<^verbatim>\<open>Dupe\<close> over the pockets:
  \<^verbatim>\<open>r.Pockets[i] = make([]Card, len(run.Pockets[i])); copy(r.Pockets[i], run.Pockets[i])\<close>.
\<close>

fun Dupe_pockets :: "nat list \<Rightarrow> slice \<Rightarrow> slice \<Rightarrow> Store \<Rightarrow> Store" where
  "Dupe_pockets [] src dst st = st"
| "Dupe_pockets (i # rest) src dst st =
     (let (c, st1) = make_cards st (len (rows_of st src ! i));
          st2 = set_row st1 dst i c;
          st3 = copy_cards st2 (rows_of st2 dst ! i) (rows_of st2 src ! i)
      in Dupe_pockets rest src dst st3)"

text \<open>
  \<^verbatim>\<open>if s != nil { t = make([]Card, len(s)); copy(t, s) }\<close>, for \<^verbatim>\<open>Hi\<close> and \<^verbatim>\<open>Lo\<close>, and
  \<^verbatim>\<open>if run.Pockets != nil { r.Pockets = make([][]Card, len(run.Pockets)); ... }\<close> with the
  loop over the pockets.  \<^verbatim>\<open>Dupe\<close> starts from \<^verbatim>\<open>new(Run)\<close>, all of whose slices are nil.
\<close>

definition Dupe_cards :: "Store \<Rightarrow> slice \<Rightarrow> slice \<times> Store" where
  "Dupe_cards st s =
     (if s \<noteq> Nil_slice then
        (let (t, st1) = make_cards st (len s) in (t, copy_cards st1 t s))
      else (Nil_slice, st))"

definition Dupe_rows :: "Store \<Rightarrow> slice \<Rightarrow> slice \<times> Store" where
  "Dupe_rows st s =
     (if s \<noteq> Nil_slice then
        (let (p, st0) = make_rows st (len s) in (p, Dupe_pockets [0 ..< len s] s p st0))
      else (Nil_slice, st))"

definition Dupe_h :: "Store \<Rightarrow> Run_h \<Rightarrow> Run_h \<times> Store" where
  "Dupe_h st run =
     (let r = \<lparr>Discard_h = Nil_slice, Pockets_h = Nil_slice, Hi_h = Nil_slice,
               Lo_h = Nil_slice\<rparr>;
          (p, st1) = Dupe_rows st (Pockets_h run);
          (h, st2) = Dupe_cards st1 (Hi_h run);
          (l, st3) = Dupe_cards st2 (Lo_h run)
      in (r\<lparr>Pockets_h := p, Hi_h := h, Lo_h := l\<rparr>, st3))"

text \<open>
  The contents of a run in a store, the well-formedness of its slices, and the addresses
  of the arrays it reaches.
\<close>

definition content :: "Store \<Rightarrow> Run_h \<Rightarrow> Run" where
  "content st r =
     \<lparr>Discard = cards_of st (Discard_h r),
      Pockets = map (cards_of st) (rows_of st (Pockets_h r)),
      Hi = cards_of st (Hi_h r),
      Lo = cards_of st (Lo_h r)\<rparr>"

definition wf_cards :: "Store \<Rightarrow> slice \<Rightarrow> bool" where
  "wf_cards st s =
     (case s of
        Nil_slice \<Rightarrow> True
      | Slice a n \<Rightarrow> a < length (card_arrays st) \<and> n \<le> length (card_arrays st ! a))"

definition wf_rows :: "Store \<Rightarrow> slice \<Rightarrow> bool" where
  "wf_rows st s =
     (case s of
        Nil_slice \<Rightarrow> True
      | Slice a n \<Rightarrow>
          a < length (row_arrays st) \<and> n \<le> length (row_arrays st ! a) \<and>
          list_all (wf_cards st) (take n (row_arrays st ! a)))"

definition wf_run :: "Store \<Rightarrow> Run_h \<Rightarrow> bool" where
  "wf_run st r =
     (wf_cards st (Discard_h r) \<and> wf_rows st (Pockets_h r) \<and>
      wf_cards st (Hi_h r) \<and> wf_cards st (Lo_h r))"

definition extends :: "Store \<Rightarrow> Store \<Rightarrow> bool" where
  "extends st st' =
     (take (length (card_arrays st)) (card_arrays st') = card_arrays st \<and>
      take (length (row_arrays st)) (row_arrays st') = row_arrays st)"

definition addr_of :: "slice \<Rightarrow> nat set" where
  "addr_of s = (case s of Nil_slice \<Rightarrow> {} | Slice a n \<Rightarrow> {a})"

definition card_addrs :: "Store \<Rightarrow> Run_h \<Rightarrow> nat set" where
  "card_addrs st r =
     addr_of (Discard_h r) \<union> addr_of (Hi_h r) \<union> addr_of (Lo_h r) \<union>
     \<Union> (set (map addr_of (rows_of st (Pockets_h r))))"

definition row_addrs :: "Run_h \<Rightarrow> nat set" where
  "row_addrs r = addr_of (Pockets_h r)"

definition write_cards :: "Store \<Rightarrow> nat \<Rightarrow> Card list \<Rightarrow> Store" where
  "write_cards st a v = st\<lparr>card_arrays := (card_arrays st)[a := v]\<rparr>"

definition write_rows :: "Store \<Rightarrow> nat \<Rightarrow> slice list \<Rightarrow> Store" where
  "write_rows st a v = st\<lparr>row_arrays := (row_arrays st)[a := v]\<rparr>"

section \<open>The variant descriptor (declared outside deck.go)\<close>

text \<open>
  Modelled from the spec: the street descriptor and the variant descriptor are declared
  in files that are not part of the source at hand.  The records hold the fields
  deck.go reads.  The methods of \<^verbatim>\<open>Type\<close> (\<^verbatim>\<open>Max()\<close>, \<^verbatim>\<open>Low()\<close>, \<^verbatim>\<open>Double()\<close>) look the
  variant up in a registry; what they return is a field of \<open>Type\<close> here.
\<close>

record StreetDesc =
  Id_street :: "8 word"
  Name :: string
  Pocket :: int
  PocketUp :: int
  PocketDiscard :: int
  PocketDraw :: int
  Board :: int
  BoardDiscard :: int

record Type =
  Type_Max :: int
  Type_Low :: bool
  Type_Double :: bool

record TypeDesc =
  Type :: Type
  Max_desc :: int
  Low_desc :: bool
  Double_desc :: bool
  Streets :: "StreetDesc list"

section \<open>Evaluations and results (deck.go, \<^verbatim>\<open>Result\<close>, \<^verbatim>\<open>Win\<close>)\<close>

text \<open>
  Modelled from the spec: the evaluation record, its description and the rank marker
  \<^verbatim>\<open>Invalid\<close> are declared outside deck.go.  An \<^verbatim>\<open>EvalRank\<close> is a 16-bit unsigned value.
  A \<^verbatim>\<open>*Eval\<close> is an \<open>Eval option\<close>, \<open>None\<close> being the nil pointer.
\<close>

type_synonym EvalRank = "16 word"

record Eval =
  Type_eval :: Type
  HiRank :: EvalRank
  HiBest :: "Card list"
  HiUnused :: "Card list"
  LoRank :: EvalRank
  LoBest :: "Card list"
  LoUnused :: "Card list"

record EvalDesc =
  Rank :: EvalRank
  Best :: "Card list"
  Unused :: "Card list"

text \<open>
  The external collaborators of the result resolver, taken as parameters:
  \<^verbatim>\<open>EvalOf\<close>, the evaluation functions \<^verbatim>\<open>evals[typ]\<close> and \<^verbatim>\<open>calcs[typ]\<close> (which fill the
  evaluation they are handed), \<^verbatim>\<open>Order\<close>, the method \<^verbatim>\<open>(*Eval).Desc\<close> and the rank marker
  \<^verbatim>\<open>Invalid\<close>.
\<close>

record Ext =
  EvalOf :: "Type \<Rightarrow> Eval"
  evals :: "Type \<Rightarrow> Eval \<Rightarrow> Card list \<Rightarrow> Card list \<Rightarrow> Eval"
  calcs :: "Type \<Rightarrow> Eval \<Rightarrow> Card list \<Rightarrow> Card list \<Rightarrow> Eval"
  Order_ext :: "Eval option list \<Rightarrow> bool \<Rightarrow> int list \<times> int"
  Desc :: "Eval option \<Rightarrow> bool \<Rightarrow> EvalDesc option"
  Invalid_rank :: EvalRank

record Result =
  Evals :: "Eval option list"
  HiOrder :: "int list"
  HiPivot :: int
  LoOrder :: "int list"
  LoPivot :: int

record Win =
  Evals_win :: "Eval option list"
  Order :: "int list"
  Pivot :: int
  Low :: bool
  Scoop :: bool
  Names :: "string list"

text \<open>
  \<^verbatim>\<open>map[int]bool\<close> is a finite mapping: a missing key reads as false, \<^verbatim>\<open>len\<close> is the
  number of keys.
\<close>

definition lookup_active :: "(int, bool) mapping \<Rightarrow> int \<Rightarrow> bool" where
  "lookup_active m i = (case Mapping.lookup m i of None \<Rightarrow> False | Some b \<Rightarrow> b)"

text \<open>
  \<^verbatim>\<open>Run.Eval\<close>: one evaluation per pocket, nil for a position that is not active
  (\<open>active = None\<close> is the nil map, for which every position is evaluated).
\<close>

definition Run_Eval ::
  "Ext \<Rightarrow> Run \<Rightarrow> Type \<Rightarrow> (int, bool) mapping option \<Rightarrow> bool \<Rightarrow> Eval option list" where
  "Run_Eval x run typ active calc =
     (let f = (if calc then calcs x typ else evals x typ) in
      map (\<lambda>i.
        if active = None \<or> lookup_active (the active) (int i) then
          (let ev1 = f (EvalOf x typ) (Pockets run ! i) (Hi run) in
           if Type_Double typ then
             (let ev = f (EvalOf x typ) (Pockets run ! i) (Lo run) in
              Some (ev1\<lparr>LoRank := HiRank ev, LoBest := HiBest ev, LoUnused := HiUnused ev\<rparr>))
           else Some ev1)
        else None) [0 ..< length (Pockets run)])"

definition NewResult ::
  "Ext \<Rightarrow> Type \<Rightarrow> Run \<Rightarrow> (int, bool) mapping option \<Rightarrow> bool \<Rightarrow> Result" where
  "NewResult x typ run active calc =
     (let evs = Run_Eval x run typ active calc;
          hi = Order_ext x evs False;
          lo = (if Type_Low typ \<or> Type_Double typ then Order_ext x evs True else ([], 0))
      in \<lparr>Evals = evs, HiOrder = fst hi, HiPivot = snd hi, LoOrder = fst lo, LoPivot = snd lo\<rparr>)"

text \<open>
  \<^verbatim>\<open>Win.Invalid\<close>, on a \<^verbatim>\<open>*Win\<close> (\<open>None\<close> is the nil receiver).  Indexing
  \<^verbatim>\<open>win.Evals[win.Order[0]]\<close> outside the slice panics.
\<close>

definition Invalid :: "Ext \<Rightarrow> Win option \<Rightarrow> bool option" where
  "Invalid x w =
     (case w of
        None \<Rightarrow> Some False
      | Some win \<Rightarrow>
          if Pivot win = 0 \<or> length (Evals_win win) = 0 \<or> length (Order win) = 0
          then Some False
          else
            (let i = Order win ! 0 in
             if 0 \<le> i \<and> i < int (length (Evals_win win)) then
               (case Desc x (Evals_win win ! nat i) (Low win) of
                  None \<Rightarrow> Some True
                | Some d \<Rightarrow> Some (Rank d = 0 \<or> Rank d = Invalid_rank x))
             else None))"

definition Verb :: "Win \<Rightarrow> string" where
  "Verb win =
     (if Scoop win then ''scoops''
      else if Pivot win > 2 then ''push''
      else if Pivot win = 2 then ''split''
      else if Pivot win = 0 then ''none''
      else ''wins'')"

section \<open>The dealer (deck.go, \<^verbatim>\<open>Dealer\<close>)\<close>

text \<open>
  \<^verbatim>\<open>Runs\<close> is a slice of pointers: the list of the runs pointed to, each its own object.
  \<^verbatim>\<open>Results\<close> is \<open>None\<close> while the slice is nil.  The counters \<^verbatim>\<open>S\<close>, \<^verbatim>\<open>R\<close>, \<^verbatim>\<open>E\<close> move by
  one per call from \<open>-1\<close> and stay far from the 64-bit bounds.
\<close>

record Dealer =
  TypeDesc :: TypeDesc
  Deck :: Deck
  Count :: int
  Active :: "(int, bool) mapping"
  Runs :: "Run list"
  Results :: "Result list option"
  RunCount :: int
  ST :: int
  S :: int
  R :: int
  E :: int

text \<open>\<^verbatim>\<open>for i := range d.Count\<close>: the positions \<open>0, ..., Count - 1\<close>, none when \<open>Count \<le> 0\<close>.\<close>

definition positions :: "Dealer \<Rightarrow> int list" where
  "positions d = map int [0 ..< nat (Count d)]"

definition init :: "Dealer \<Rightarrow> Dealer option" where
  "init d =
     (case NewRun (Count d) of
        None \<Rightarrow> None
      | Some run \<Rightarrow>
          Some (d\<lparr>Active := fold (\<lambda>i m. Mapping.update i True m) (positions d) Mapping.empty,
                  Runs := [run],
                  Results := None,
                  RunCount := 1,
                  ST := - 1,
                  S := - 1,
                  R := - 1,
                  E := - 1\<rparr>))"

definition NewDealer :: "TypeDesc \<Rightarrow> Deck \<Rightarrow> int \<Rightarrow> Dealer option" where
  "NewDealer desc deck count =
     init \<lparr>TypeDesc = desc, Deck = deck, Count = count, Active = Mapping.empty, Runs = [],
           Results = None, RunCount = 0, ST = 0, S = 0, R = 0, E = 0\<rparr>"

definition Deactivate :: "Dealer \<Rightarrow> int list \<Rightarrow> bool \<times> Dealer" where
  "Deactivate d ps =
     (if R d \<noteq> - 1 \<and> R d \<noteq> 0 then (False, d)
      else (True, d\<lparr>Active := fold (\<lambda>position m. Mapping.delete position m) ps (Active d)\<rparr>))"

definition HasNext :: "Dealer \<Rightarrow> bool" where
  "HasNext d =
     (let n = int (length (Streets (TypeDesc d))) in n \<noteq> 0 \<and> S d < n - 1)"

definition HasActive :: "Dealer \<Rightarrow> bool" where
  "HasActive d =
     (0 \<le> S d \<and> (Type_Max (Type (TypeDesc d)) = 1 \<or> 1 < int (Mapping.size (Active d))))"

text \<open>
  \<^verbatim>\<open>ChangeRuns\<close>.  \<^verbatim>\<open>make([]*Run, runs-1)\<close> panics when \<open>runs - 1\<close> is negative.  The
  new slots hold nil until the loop assigns them; every one of them is assigned before
  the call returns, so the value standing for nil in the list is never read.
\<close>

definition nil_slot :: Run where
  "nil_slot = \<lparr>Discard = [], Pockets = [], Hi = [], Lo = []\<rparr>"

fun ChangeRuns_loop :: "nat list \<Rightarrow> Run list \<Rightarrow> Run list" where
  "ChangeRuns_loop [] rs = rs"
| "ChangeRuns_loop (run # rest) rs = ChangeRuns_loop rest (rs[run := Dupe (rs ! 0)])"

definition ChangeRuns :: "Dealer \<Rightarrow> int \<Rightarrow> (bool \<times> Dealer) option" where
  "ChangeRuns d runs =
     (if R d \<noteq> 0 \<or> RunCount d \<noteq> 1 \<or> length (Runs d) \<noteq> 1 \<or>
         int (length (Streets (TypeDesc d))) \<le> S d \<or> \<not> HasActive d
      then Some (False, d)
      else if runs - 1 < 0 then None
      else Some (True,
        d\<lparr>Runs := ChangeRuns_loop [1 ..< nat runs]
                     (Runs d @ replicate (nat (runs - 1)) nil_slot),
          ST := S d,
          RunCount := runs\<rparr>))"

text \<open>
  \<^verbatim>\<open>Deal\<close> mutates the run it is handed and the dealer's deck; the model returns both.
  The three appends share \<open>draw_to\<close>: draw \<open>n\<close> cards and hand them to an update of the run.
\<close>

definition draw_to ::
  "(Card list \<Rightarrow> Run \<Rightarrow> Run) \<Rightarrow> int \<Rightarrow> Run \<times> Deck \<Rightarrow> (Run \<times> Deck) option" where
  "draw_to upd n rd =
     (case Draw (snd rd) n of
        None \<Rightarrow> None
      | Some (cs, deck') \<Rightarrow> Some (upd cs (fst rd), deck'))"

definition to_Discard :: "Card list \<Rightarrow> Run \<Rightarrow> Run" where
  "to_Discard cs run = run\<lparr>Discard := Discard run @ cs\<rparr>"

definition to_Hi :: "Card list \<Rightarrow> Run \<Rightarrow> Run" where
  "to_Hi cs run = run\<lparr>Hi := Hi run @ cs\<rparr>"

definition to_Lo :: "Card list \<Rightarrow> Run \<Rightarrow> Run" where
  "to_Lo cs run = run\<lparr>Lo := Lo run @ cs\<rparr>"

text \<open>
  \<^verbatim>\<open>for i := range d.Count { run.Pockets[i] = append(run.Pockets[i], d.Deck.Draw(1)...) }\<close>:
  every position \<open>i\<close> below \<open>Count\<close> is dealt to; \<^verbatim>\<open>Active\<close> is not consulted.
\<close>

fun deal_round :: "int list \<Rightarrow> Run \<times> Deck \<Rightarrow> (Run \<times> Deck) option" where
  "deal_round [] rd = Some rd"
| "deal_round (i # rest) (run, deck) =
     (if 0 \<le> i \<and> i < int (length (Pockets run)) then
        (case Draw deck 1 of
           None \<Rightarrow> None
         | Some (cs, deck') \<Rightarrow>
             deal_round rest
               (run\<lparr>Pockets := (Pockets run)[nat i := Pockets run ! nat i @ cs]\<rparr>, deck'))
      else None)"

text \<open>\<^verbatim>\<open>for range p\<close>: \<open>p\<close> rounds.\<close>

fun deal_rounds :: "nat \<Rightarrow> int list \<Rightarrow> Run \<times> Deck \<Rightarrow> (Run \<times> Deck) option" where
  "deal_rounds 0 ps rd = Some rd"
| "deal_rounds (Suc k) ps rd =
     (case deal_round ps rd of None \<Rightarrow> None | Some rd' \<Rightarrow> deal_rounds k ps rd')"

definition Deal_pockets :: "Dealer \<Rightarrow> StreetDesc \<Rightarrow> Run \<times> Deck \<Rightarrow> (Run \<times> Deck) option" where
  "Deal_pockets d desc rd =
     (if 0 < Pocket desc then
        (case (if 0 < PocketDiscard desc then draw_to to_Discard (PocketDiscard desc) rd
               else Some rd) of
           None \<Rightarrow> None
         | Some rd1 \<Rightarrow> deal_rounds (nat (Pocket desc)) (positions d) rd1)
      else Some rd)"

definition Deal_board :: "Dealer \<Rightarrow> StreetDesc \<Rightarrow> Run \<times> Deck \<Rightarrow> (Run \<times> Deck) option" where
  "Deal_board d desc rd =
     (if 0 < Board desc then
        (case (if 0 < BoardDiscard desc then draw_to to_Discard (BoardDiscard desc) rd
               else Some rd) of
           None \<Rightarrow> None
         | Some rd1 \<Rightarrow>
             (case draw_to to_Hi (Board desc) rd1 of
                None \<Rightarrow> None
              | Some rd2 \<Rightarrow>
                  if Double_desc (TypeDesc d) then
                    (case (if 0 < BoardDiscard desc
                           then draw_to to_Discard (BoardDiscard desc) rd2
                           else Some rd2) of
                       None \<Rightarrow> None
                     | Some rd3 \<Rightarrow> draw_to to_Lo (Board desc) rd3)
                  else Some rd2))
      else Some rd)"

definition Deal :: "Dealer \<Rightarrow> int \<Rightarrow> Run \<Rightarrow> (Run \<times> Deck) option" where
  "Deal d street run =
     (if 0 \<le> street \<and> street < int (length (Streets (TypeDesc d))) then
        (let desc = Streets (TypeDesc d) ! nat street in
         case Deal_pockets d desc (run, Deck d) of
           None \<Rightarrow> None
         | Some rd \<Rightarrow> Deal_board d desc rd)
      else None)"

text \<open>
  \<^verbatim>\<open>Next\<close>.  The run handed to \<^verbatim>\<open>Deal\<close> is \<^verbatim>\<open>d.Runs[d.R]\<close>, so the dealt run is written
  back at index \<open>R\<close>.
\<close>

definition Next :: "Dealer \<Rightarrow> (bool \<times> Dealer) option" where
  "Next d =
     (let d1 = (if S d = - 1 \<and> R d = - 1 then d\<lparr>S := 0, R := 0\<rparr> else d\<lparr>S := S d + 1\<rparr>);
          n = int (length (Streets (TypeDesc d1)))
      in
      if (n \<le> S d1 \<and> R d1 = RunCount d1 - 1) \<or> \<not> HasActive d1 then Some (False, d1)
      else
        (let d2 = (if n \<le> S d1 \<and> R d1 < RunCount d1
                   then d1\<lparr>S := ST d1 + 1, R := R d1 + 1\<rparr> else d1)
         in
         if 0 \<le> R d2 \<and> R d2 < int (length (Runs d2)) then
           (case Deal d2 (S d2) (Runs d2 ! nat (R d2)) of
              None \<Rightarrow> None
            | Some (run', deck') \<Rightarrow>
                Some (S d2 < n \<or> R d2 < RunCount d2 - 1,
                      d2\<lparr>Deck := deck', Runs := (Runs d2)[nat (R d2) := run']\<rparr>))
         else None))"

text \<open>
  \<^verbatim>\<open>NextResult\<close>.  The loop \<^verbatim>\<open>for ; i < d.Count && !d.Active[i]; i++ {}\<close> finds the first
  active position.
\<close>

function first_active :: "Dealer \<Rightarrow> int \<Rightarrow> int" where
  "first_active d i =
     (if i < Count d \<and> \<not> lookup_active (Active d) i then first_active d (i + 1) else i)"
  by pat_completeness auto
termination
  by (relation "measure (\<lambda>(d, i). nat (Count d - i))") auto

declare first_active.simps [simp del]

fun results_loop :: "Ext \<Rightarrow> Dealer \<Rightarrow> nat list \<Rightarrow> Result list \<Rightarrow> Result list option" where
  "results_loop x d [] rs = Some rs"
| "results_loop x d (i # rest) rs =
     (if i < length (Runs d)
      then results_loop x d rest
             (rs[i := NewResult x (Type (TypeDesc d)) (Runs d ! i) (Some (Active d)) False])
      else None)"

definition nil_result :: Result where
  "nil_result = \<lparr>Evals = [], HiOrder = [], HiPivot = 0, LoOrder = [], LoPivot = 0\<rparr>"

definition compute_results :: "Ext \<Rightarrow> Dealer \<Rightarrow> Dealer option" where
  "compute_results x d =
     (let n = int (Mapping.size (Active d)) in
      if Results d \<noteq> None then Some d
      else if n = 1 \<and> RunCount d = 1 \<and> Max_desc (TypeDesc d) \<noteq> 1 then
        (let i = first_active d 0;
             res = \<lparr>Evals = [Some (EvalOf x (Type (TypeDesc d)))],
                    HiOrder = [i], HiPivot = 1, LoOrder = [], LoPivot = 0\<rparr>;
             res' = (if Low_desc (TypeDesc d) \<or> Double_desc (TypeDesc d)
                     then res\<lparr>LoOrder := HiOrder res, LoPivot := HiPivot res\<rparr> else res)
         in Some (d\<lparr>Results := Some [res']\<rparr>))
      else if n > 1 \<or> Max_desc (TypeDesc d) = 1 then
        (if RunCount d < 0 then None
         else
           (case results_loop x d [0 ..< nat (RunCount d)]
                   (replicate (nat (RunCount d)) nil_result) of
              None \<Rightarrow> None
            | Some rs \<Rightarrow> Some (d\<lparr>Results := Some rs\<rparr>)))
      else Some d)"

definition NextResult :: "Ext \<Rightarrow> Dealer \<Rightarrow> (bool \<times> Dealer) option" where
  "NextResult x d =
     (case (if Results d = None then compute_results x d else Some d) of
        None \<Rightarrow> None
      | Some d1 \<Rightarrow>
          if RunCount d1 \<le> E d1 then Some (False, d1)
          else (let d2 = d1\<lparr>E := E d1 + 1\<rparr> in Some (E d2 < RunCount d2, d2)))"

text \<open>
  \<^verbatim>\<open>Result\<close>: \<^verbatim>\<open>d.Results[d.E]\<close> panics when the index is outside the slice, as it is
  for every index when the slice is nil.
\<close>

definition Result :: "Dealer \<Rightarrow> (int \<times> Result option) option" where
  "Result d =
     (if 0 \<le> E d \<and> E d < RunCount d then
        (case Results d of
           None \<Rightarrow> None
         | Some rs \<Rightarrow>
             if nat (E d) < length rs then Some (E d, Some (rs ! nat (E d))) else None)
      else Some (- 1, None))"

text \<open>Drivers: a number of successive calls, with what each call returned.\<close>

fun Nexts :: "nat \<Rightarrow> Dealer \<Rightarrow> (bool list \<times> Dealer) option" where
  "Nexts 0 d = Some ([], d)"
| "Nexts (Suc k) d =
     (case Nexts k d of
        None \<Rightarrow> None
      | Some (bs, d') \<Rightarrow>
          (case Next d' of None \<Rightarrow> None | Some (b, d'') \<Rightarrow> Some (bs @ [b], d'')))"

fun NextResults :: "Ext \<Rightarrow> nat \<Rightarrow> Dealer \<Rightarrow> (bool list \<times> Dealer) option" where
  "NextResults x 0 d = Some ([], d)"
| "NextResults x (Suc k) d =
     (case NextResults x k d of
        None \<Rightarrow> None
      | Some (bs, d') \<Rightarrow>
          (case NextResult x d' of None \<Rightarrow> None | Some (b, d'') \<Rightarrow> Some (bs @ [b], d'')))"

text \<open>
  The streets of a list dealt one after the other into the first run, each by one call
  of \<^verbatim>\<open>Deal\<close>.
\<close>

fun Deal_streets :: "Dealer \<Rightarrow> int list \<Rightarrow> Dealer option" where
  "Deal_streets d [] = Some d"
| "Deal_streets d (street # rest) =
     (if Runs d = [] then None
      else
        (case Deal d street (Runs d ! 0) of
           None \<Rightarrow> None
         | Some (run', deck') \<Rightarrow>
             Deal_streets (d\<lparr>Deck := deck', Runs := (Runs d)[0 := run']\<rparr>) rest))"

section \<open>Well-formed states\<close>

text \<open>
  A deck within its bounds: the cursor is not negative and the usable length does not
  exceed the number of cards.  A dealer with one run whose run has a pocket for every
  position and for which \<^verbatim>\<open>HasActive\<close> holds once a street is reached.
\<close>

definition deck_ok :: "Deck \<Rightarrow> bool" where
  "deck_ok deck = (0 \<le> I deck \<and> L deck \<le> int (length (V deck)))"

definition single_run_ok :: "Dealer \<Rightarrow> bool" where
  "single_run_ok d =
     (deck_ok (Deck d) \<and> RunCount d = 1 \<and> length (Runs d) = 1 \<and>
      length (Pockets (Runs d ! 0)) = nat (Count d) \<and>
      (Type_Max (Type (TypeDesc d)) = 1 \<or> 1 < int (Mapping.size (Active d))))"

section \<open>Splitting into runs on the storage (deck.go, \<^verbatim>\<open>ChangeRuns\<close>)\<close>

text \<open>
  The loop of \<^verbatim>\<open>ChangeRuns\<close> on the storage: every new run is what \<^verbatim>\<open>Dupe\<close> makes of
  \<^verbatim>\<open>d.Runs[0]\<close> in the store as the earlier copies left it.  Two runs are apart when no
  array is reached from both.
\<close>

definition nil_slot_h :: Run_h where
  "nil_slot_h =
     \<lparr>Discard_h = Nil_slice, Pockets_h = Nil_slice, Hi_h = Nil_slice, Lo_h = Nil_slice\<rparr>"

fun ChangeRuns_loop_h :: "nat list \<Rightarrow> Run_h list \<Rightarrow> Store \<Rightarrow> Run_h list \<times> Store" where
  "ChangeRuns_loop_h [] rs st = (rs, st)"
| "ChangeRuns_loop_h (run # rest) rs st =
     (let (r, st') = Dupe_h st (rs ! 0) in ChangeRuns_loop_h rest (rs[run := r]) st')"

definition apart :: "Store \<Rightarrow> Run_h \<Rightarrow> Run_h \<Rightarrow> bool" where
  "apart st a b =
     (card_addrs st a \<inter> card_addrs st b = {} \<and> row_addrs a \<inter> row_addrs b = {})"

definition copies_ok :: "Store \<Rightarrow> Run \<Rightarrow> Run_h list \<Rightarrow> nat \<Rightarrow> bool" where
  "copies_ok st c0 rs j =
     ((\<forall>i<j. wf_run st (rs ! i) \<and> content st (rs ! i) = (if i = 0 then c0 else Dupe c0)) \<and>
      (\<forall>i k. i < k \<and> k < j \<longrightarrow> apart st (rs ! i) (rs ! k)))"

section \<open>Sample inputs\<close>

definition sample_desc :: TypeDesc where
  "sample_desc =
     \<lparr>Type = \<lparr>Type_Max = 10, Type_Low = False, Type_Double = False\<rparr>,
      Max_desc = 10, Low_desc = False, Double_desc = False,
      Streets =
        [\<lparr>Id_street = 112, Name = ''Pre-Flop'', Pocket = 1, PocketUp = 0, PocketDiscard = 0,
          PocketDraw = 0, Board = 0, BoardDiscard = 0\<rparr>,
         \<lparr>Id_street = 102, Name = ''Flop'', Pocket = 0, PocketUp = 0, PocketDiscard = 0,
          PocketDraw = 0, Board = 2, BoardDiscard = 1\<rparr>,
         \<lparr>Id_street = 116, Name = ''Turn'', Pocket = 0, PocketUp = 0, PocketDiscard = 0,
          PocketDraw = 0, Board = 1, BoardDiscard = 1\<rparr>]\<rparr>"

definition sample_deck :: Deck where
  "sample_deck =
     DeckOf [New 2 0, New 3 0, New 4 0, New 5 0, New 6 0, New 7 0, New 8 0, New 9 0,
             New 10 0, New 11 0, New 12 0, New 13 0, New 14 0]"

definition sample_active :: "int list \<Rightarrow> (int, bool) mapping" where
  "sample_active ps = fold (\<lambda>i m. Mapping.update i True m) ps Mapping.empty"

definition sample_new :: "int \<Rightarrow> Dealer" where
  "sample_new count =
     \<lparr>TypeDesc = sample_desc, Deck = sample_deck, Count = count,
      Active = sample_active (map int [0 ..< nat count]),
      Runs = [\<lparr>Discard = [], Pockets = replicate (nat count) [], Hi = [], Lo = []\<rparr>],
      Results = None, RunCount = 1, ST = - 1, S = - 1, R = - 1, E = - 1\<rparr>"

definition sample_dealt :: Dealer where
  "sample_dealt =
     \<lparr>TypeDesc = sample_desc, Deck = sample_deck\<lparr>I := 2\<rparr>, Count = 2,
      Active = sample_active [0, 1],
      Runs = [\<lparr>Discard = [], Pockets = [[New 2 0], [New 3 0]], Hi = [], Lo = []\<rparr>],
      Results = None, RunCount = 1, ST = - 1, S = 0, R = 0, E = - 1\<rparr>"

definition sample_split :: Dealer where
  "sample_split =
     sample_dealt
       \<lparr>Runs := [\<lparr>Discard = [], Pockets = [[New 2 0], [New 3 0]], Hi = [], Lo = []\<rparr>,
                 \<lparr>Discard = [], Pockets = [[New 2 0], [New 3 0]], Hi = [], Lo = []\<rparr>],
        RunCount := 2, ST := 0\<rparr>"

definition sample_second_run :: Dealer where
  "sample_second_run =
     sample_split
       \<lparr>Deck := sample_deck\<lparr>I := 10\<rparr>,
        Runs := [\<lparr>Discard = [New 4 0, New 7 0], Pockets = [[New 2 0], [New 3 0]],
                   Hi = [New 5 0, New 6 0, New 8 0], Lo = []\<rparr>,
                 \<lparr>Discard = [New 9 0], Pockets = [[New 2 0], [New 3 0]],
                   Hi = [New 10 0, New 11 0], Lo = []\<rparr>],
        S := 1, R := 1\<rparr>"

definition sample_flop :: Dealer where
  "sample_flop =
     sample_dealt
       \<lparr>Deck := sample_deck\<lparr>I := 5\<rparr>,
        Runs := [\<lparr>Discard = [New 4 0], Pockets = [[New 2 0], [New 3 0]],
                   Hi = [New 5 0, New 6 0], Lo = []\<rparr>],
        S := 1\<rparr>"

definition sample_flop_split :: Dealer where
  "sample_flop_split =
     sample_flop
       \<lparr>Runs := [\<lparr>Discard = [New 4 0], Pockets = [[New 2 0], [New 3 0]],
                   Hi = [New 5 0, New 6 0], Lo = []\<rparr>,
                 \<lparr>Discard = [], Pockets = [[New 2 0], [New 3 0]],
                   Hi = [New 5 0, New 6 0], Lo = []\<rparr>],
        RunCount := 2, ST := 1\<rparr>"


definition sample_ext :: Ext where
  "sample_ext =
     \<lparr>EvalOf = (\<lambda>typ. \<lparr>Type_eval = typ, HiRank = 65535, HiBest = [], HiUnused = [],
                           LoRank = 65535, LoBest = [], LoUnused = []\<rparr>),
      evals = (\<lambda>typ ev pocket board. ev\<lparr>HiRank := 1, HiBest := pocket @ board\<rparr>),
      calcs = (\<lambda>typ ev pocket board. ev\<lparr>HiRank := 1, HiBest := pocket @ board\<rparr>),
      Order_ext = (\<lambda>evs low. ([0], 1)),
      Desc = (\<lambda>ev low. case ev of
                 None \<Rightarrow> None
               | Some e \<Rightarrow>
                   Some (if low then \<lparr>Rank = LoRank e, Best = LoBest e, Unused = LoUnused e\<rparr>
                         else \<lparr>Rank = HiRank e, Best = HiBest e, Unused = HiUnused e\<rparr>)),
      Invalid_rank = 65535\<rparr>"

definition sample_win :: "int \<Rightarrow> bool \<Rightarrow> Win" where
  "sample_win pivot scoop =
     \<lparr>Evals_win = [Some (EvalOf sample_ext (Type sample_desc))], Order = [0], Pivot = pivot,
      Low = False, Scoop = scoop, Names = []\<rparr>"

definition sample_folded :: Dealer where
  "sample_folded = (sample_new 3)\<lparr>Active := sample_active [1, 2]\<rparr>"

definition sample_one_left :: Dealer where
  "sample_one_left = sample_split\<lparr>Active := sample_active [0]\<rparr>"

definition sample_turn :: Dealer where
  "sample_turn =
     sample_flop
       \<lparr>Deck := sample_deck\<lparr>I := 7\<rparr>,
        Runs := [\<lparr>Discard = [New 4 0, New 7 0], Pockets = [[New 2 0], [New 3 0]],
                   Hi = [New 5 0, New 6 0, New 8 0], Lo = []\<rparr>],
        S := 2\<rparr>"

definition sample_store :: Store where
  "sample_store =
     \<lparr>card_arrays = [[New 4 0], [New 2 0], [New 3 0], [New 5 0, New 6 0]],
      row_arrays = [[Slice 1 1, Slice 2 1]]\<rparr>"

definition sample_run_h :: Run_h where
  "sample_run_h =
     \<lparr>Discard_h = Slice 0 1, Pockets_h = Slice 0 2, Hi_h = Slice 3 2, Lo_h = Nil_slice\<rparr>"

definition sample_copy_h :: Run_h where
  "sample_copy_h =
     \<lparr>Discard_h = Nil_slice, Pockets_h = Slice 1 2, Hi_h = Slice 6 2, Lo_h = Nil_slice\<rparr>"

definition sample_store_dupe :: Store where
  "sample_store_dupe =
     \<lparr>card_arrays = [[New 4 0], [New 2 0], [New 3 0], [New 5 0, New 6 0],
                     [New 2 0], [New 3 0], [New 5 0, New 6 0]],
      row_arrays = [[Slice 1 1, Slice 2 1], [Slice 4 1, Slice 5 1]]\<rparr>"

definition sample_store_split :: Store where
  "sample_store_split =
     \<lparr>card_arrays = [[New 4 0], [New 2 0], [New 3 0], [New 5 0, New 6 0],
                     [New 2 0], [New 3 0], [New 5 0, New 6 0],
                     [New 2 0], [New 3 0], [New 5 0, New 6 0]],
      row_arrays = [[Slice 1 1, Slice 2 1], [Slice 4 1, Slice 5 1], [Slice 7 1, Slice 8 1]]\<rparr>"

definition sample_shuffler :: Shuffler where
  "sample_shuffler k n = [(0, 2)]"

section \<open>Facts about the deck\<close>

lemma int_wrap_id: "- (2 ^ 63) \<le> x \<Longrightarrow> x < 2 ^ 63 \<Longrightarrow> int_wrap x = x"
  unfolding int_wrap_def by (simp add: signed_take_bit_int_eq_self)

lemma Draw_loop_spec:
  "0 \<le> I d \<Longrightarrow> l \<le> int (length (V d)) \<Longrightarrow>
   Draw_loop l d acc =
     Some (acc @ take (nat (l - I d)) (drop (nat (I d)) (V d)), d\<lparr>I := max (I d) l\<rparr>)"
proof (induction l d acc rule: Draw_loop.induct)
  case (1 l d cards)
  show ?case
  proof (cases "I d < l")
    case False
    then show ?thesis
      by (subst Draw_loop.simps) (simp add: max_def)
  next
    case True
    with "1.prems" have inb: "0 \<le> I d \<and> I d < int (length (V d))" by simp
    have step: "Draw_loop l d cards =
        Draw_loop l (d\<lparr>I := I d + 1\<rparr>) (cards @ [V d ! nat (I d)])"
      using True inb by (subst Draw_loop.simps) simp
    have ih: "Draw_loop l (d\<lparr>I := I d + 1\<rparr>) (cards @ [V d ! nat (I d)]) =
        Some ((cards @ [V d ! nat (I d)]) @
                take (nat (l - (I d + 1))) (drop (nat (I d + 1)) (V d)),
              d\<lparr>I := max (I d + 1) l\<rparr>)"
      using "1.IH" [OF True inb] "1.prems" by simp
    have n1: "nat (l - I d) = Suc (nat (l - (I d + 1)))"
      using True by simp
    have n2: "nat (I d + 1) = Suc (nat (I d))"
      using inb by arith
    have lt: "nat (I d) < length (V d)"
      using inb by arith
    have "take (nat (l - I d)) (drop (nat (I d)) (V d)) =
          V d ! nat (I d) # take (nat (l - (I d + 1))) (drop (nat (I d + 1)) (V d))"
      unfolding n1 n2 using lt by (simp add: Cons_nth_drop_Suc [symmetric])
    moreover have "max (I d + 1) l = max (I d) l"
      using True by simp
    ultimately show ?thesis
      using step ih by simp
  qed
qed

lemma Draw_props:
  assumes "0 \<le> I d" "L d \<le> int (length (V d))" "I d + count < 2 ^ 63"
  shows "Draw d count =
           Some (if count < 0 then []
                 else take (nat (min count (L d - I d))) (drop (nat (I d)) (V d)),
                 d\<lparr>I := I d + max 0 (min count (L d - I d))\<rparr>)"
proof (cases "count < 0")
  case True
  then show ?thesis by (simp add: Draw_def)
next
  case False
  with assms have w: "int_wrap (I d + count) = I d + count"
    by (intro int_wrap_id) auto
  have le: "min (I d + count) (L d) \<le> int (length (V d))"
    using assms by simp
  have a: "min (I d + count) (L d) - I d = min count (L d - I d)" by simp
  have b: "max (I d) (min (I d + count) (L d)) = I d + max 0 (min count (L d - I d))"
    using False by (simp add: max_def min_def)
  show ?thesis
    using False Draw_loop_spec [OF assms(1) le, of "[]"]
    by (simp add: Draw_def w a b)
qed

lemma Draw_length:
  assumes "0 \<le> I d" "L d \<le> int (length (V d))"
  shows "int (length (take (nat (min count (L d - I d))) (drop (nat (I d)) (V d)))) =
         max 0 (min count (L d - I d))"
  using assms unfolding length_take length_drop by arith

lemma Draw_loop_frame:
  "Draw_loop l d acc = Some (cs, d') \<Longrightarrow> d' = d\<lparr>I := I d'\<rparr>"
proof (induction l d acc rule: Draw_loop.induct)
  case (1 l d cards)
  show ?case
  proof (cases "I d < l")
    case False
    with "1.prems" show ?thesis
      by (subst (asm) Draw_loop.simps) auto
  next
    case True
    with "1.prems" have inb: "0 \<le> I d \<and> I d < int (length (V d))"
      by (subst (asm) Draw_loop.simps) (auto split: if_splits)
    have "Draw_loop l (d\<lparr>I := I d + 1\<rparr>) (cards @ [V d ! nat (I d)]) = Some (cs, d')"
      using "1.prems" True inb by (subst (asm) Draw_loop.simps) simp
    from "1.IH" [OF True inb this] have "d' = d\<lparr>I := I d + 1, I := I d'\<rparr>" .
    then show ?thesis by simp
  qed
qed

lemma Draw_frame: "Draw d c = Some (cs, d') \<Longrightarrow> d' = d\<lparr>I := I d'\<rparr>"
  unfolding Draw_def by (auto split: if_splits dest: Draw_loop_frame)

lemma Draws_frame: "Draws d cs = Some (rs, d') \<Longrightarrow> d' = d\<lparr>I := I d'\<rparr>"
proof (induction cs arbitrary: d rs)
  case Nil
  then show ?case by simp
next
  case (Cons c cs)
  from Cons.prems obtain x d1 xs where
    a: "Draw d c = Some (x, d1)" and b: "Draws d1 cs = Some (xs, d')"
    by (auto split: option.splits)
  from Draw_frame [OF a] Cons.IH [OF b] have "d' = d\<lparr>I := I d1, I := I d'\<rparr>"
    by simp
  then show ?case by simp
qed

lemma swap_frame: "swap d p = Some d' \<Longrightarrow> I d' = I d \<and> L d' = L d"
  by (cases p) (auto split: if_splits)

lemma swaps_frame: "swaps d ps = Some d' \<Longrightarrow> I d' = I d \<and> L d' = L d"
  by (induction ps arbitrary: d) (auto split: option.splits dest: swap_frame)

lemma Shuffle_passes_frame:
  "Shuffle_passes d sh ks = Some d' \<Longrightarrow> I d' = I d \<and> L d' = L d"
  by (induction ks arbitrary: d) (auto split: option.splits dest: swaps_frame)

lemma Shuffle_frame: "Shuffle d sh n = Some d' \<Longrightarrow> I d' = I d \<and> L d' = L d"
  unfolding Shuffle_def by (rule Shuffle_passes_frame)

section \<open>Claims about the deck\<close>

text \<open>
  Claim C7, as amended.  For a deck whose cursor is not negative and whose usable
  length \<open>L\<close> does not exceed the number of cards, and a count for which \<open>I + count\<close>
  stays a 64-bit integer: \<^verbatim>\<open>Draw(count)\<close> does not panic; it returns nothing when the
  count is negative, and otherwise the next \<open>min count (L - I)\<close> cards (none when that is
  negative) in sequence order; the cursor advances by the number of cards returned and,
  when it was within the usable length, stays within it.
\<close>

theorem Draw_within_bounds:
  assumes "0 \<le> I d" and "L d \<le> int (length (V d))" and "I d + count < 2 ^ 63"
  shows "\<exists>cs. Draw d count = Some (cs, d\<lparr>I := I d + int (length cs)\<rparr>) \<and>
           cs = (if count < 0 then []
                 else take (nat (min count (L d - I d))) (drop (nat (I d)) (V d))) \<and>
           int (length cs) = (if count < 0 then 0 else max 0 (min count (L d - I d))) \<and>
           (I d \<le> L d \<longrightarrow> I d + int (length cs) \<le> L d)"
proof (cases "count < 0")
  case True
  then show ?thesis by (simp add: Draw_def)
next
  case False
  let ?cs = "take (nat (min count (L d - I d))) (drop (nat (I d)) (V d))"
  have len: "int (length ?cs) = max 0 (min count (L d - I d))"
    using assms(1,2) by (rule Draw_length)
  have "Draw d count = Some (?cs, d\<lparr>I := I d + int (length ?cs)\<rparr>)"
    using Draw_props [OF assms] False by (simp only: len if_False)
  moreover have "I d \<le> L d \<longrightarrow> I d + int (length ?cs) \<le> L d"
    unfolding len by arith
  ultimately show ?thesis
    using False len by simp
qed

theorem Draw_within_bounds_witness:
  "(0::int) \<le> I \<lparr>I = 1, L = 3, V = [New 2 0, New 3 0, New 4 0, New 5 0]\<rparr> \<and>
   L \<lparr>I = 1, L = 3, V = [New 2 0, New 3 0, New 4 0, New 5 0]\<rparr> \<le> 4 \<and>
   Draw \<lparr>I = 1, L = 3, V = [New 2 0, New 3 0, New 4 0, New 5 0]\<rparr> 5 =
     Some ([New 3 0, New 4 0], \<lparr>I = 3, L = 3, V = [New 2 0, New 3 0, New 4 0, New 5 0]\<rparr>)"
  using Draw_within_bounds [of "\<lparr>I = 1, L = 3, V = [New 2 0, New 3 0, New 4 0, New 5 0]\<rparr>" 5]
  by simp

text \<open>
  Claim C7 as stated fails.  With one card remaining, \<^verbatim>\<open>Draw\<close> of the largest 64-bit
  integer returns no card: \<^verbatim>\<open>d.I+count\<close> wraps to a negative bound.  And on a deck whose
  limit was set beyond its cards, \<^verbatim>\<open>Draw\<close> panics.
\<close>

theorem Draw_counterexample:
  "Remaining \<lparr>I = 1, L = 2, V = [New 2 0, New 3 0]\<rparr> = 1 \<and>
   Draw \<lparr>I = 1, L = 2, V = [New 2 0, New 3 0]\<rparr> 9223372036854775807 =
     Some ([], \<lparr>I = 1, L = 2, V = [New 2 0, New 3 0]\<rparr>) \<and>
   Limit (DeckOf [New 2 0]) 2 = \<lparr>I = 0, L = 2, V = [New 2 0]\<rparr> \<and>
   Draw \<lparr>I = 0, L = 2, V = [New 2 0]\<rparr> 2 = None"
  by (simp add: Draw_def int_wrap_def Draw_loop.simps Remaining_def Limit_def DeckOf_def)

text \<open>
  Claim C8, as amended.  When the deck was last shuffled with its cursor at zero, then
  after any sequence of draws \<^verbatim>\<open>Reset\<close> followed by any sequence of \<^verbatim>\<open>Draw\<close> calls
  behaves exactly as that sequence did on the deck as the shuffle left it: the same
  cards in the same order.  \<^verbatim>\<open>Reset\<close> sets the cursor to zero and leaves the cards and
  the limit as they are.
\<close>

theorem Reset_redraws_same_cards:
  assumes "Shuffle d0 shuffler n = Some d" and "I d0 = 0" and "Draws d cs = Some (rs, d')"
  shows "Draws (Reset d') ks = Draws d ks \<and>
         I (Reset d') = 0 \<and> V (Reset d') = V d' \<and> L (Reset d') = L d' \<and> V d' = V d"
proof -
  have "I d = 0"
    using Shuffle_frame [OF assms(1)] assms(2) by simp
  moreover have "d' = d\<lparr>I := I d'\<rparr>"
    using assms(3) by (rule Draws_frame)
  ultimately have "Reset d' = d"
    unfolding Reset_def by (metis Deck.surjective Deck.update_convs(1))
  moreover have "V d' = V d"
    using \<open>d' = d\<lparr>I := I d'\<rparr>\<close> by (metis Deck.select_convs(3) Deck.surjective Deck.update_convs(1))
  moreover have "I (Reset d') = 0 \<and> V (Reset d') = V d' \<and> L (Reset d') = L d'"
    by (simp add: Reset_def)
  ultimately show ?thesis
    by simp
qed

theorem Reset_redraws_same_cards_witness:
  "Shuffle (DeckOf [New 2 0, New 3 0, New 4 0]) sample_shuffler 1 =
     Some \<lparr>I = 0, L = 3, V = [New 4 0, New 3 0, New 2 0]\<rparr> \<and>
   Draws \<lparr>I = 0, L = 3, V = [New 4 0, New 3 0, New 2 0]\<rparr> [2] =
     Some ([[New 4 0, New 3 0]], \<lparr>I = 2, L = 3, V = [New 4 0, New 3 0, New 2 0]\<rparr>) \<and>
   Draws (Reset \<lparr>I = 2, L = 3, V = [New 4 0, New 3 0, New 2 0]\<rparr>) [2] =
     Some ([[New 4 0, New 3 0]], \<lparr>I = 2, L = 3, V = [New 4 0, New 3 0, New 2 0]\<rparr>)"
proof -
  have a: "Shuffle (DeckOf [New 2 0, New 3 0, New 4 0]) sample_shuffler 1 =
     Some \<lparr>I = 0, L = 3, V = [New 4 0, New 3 0, New 2 0]\<rparr>"
    by (simp add: Shuffle_def DeckOf_def sample_shuffler_def)
  have b: "I (DeckOf [New 2 0, New 3 0, New 4 0]) = 0"
    by (simp add: DeckOf_def)
  have c: "Draws \<lparr>I = 0, L = 3, V = [New 4 0, New 3 0, New 2 0]\<rparr> [2] =
     Some ([[New 4 0, New 3 0]], \<lparr>I = 2, L = 3, V = [New 4 0, New 3 0, New 2 0]\<rparr>)"
    by (simp add: Draw_def int_wrap_def Draw_loop.simps)
  show ?thesis
    using Reset_redraws_same_cards [OF a b c, of "[2]"] a c by simp
qed

text \<open>
  Claim C8 as stated fails when the deck is shuffled after a draw: \<^verbatim>\<open>Shuffle\<close> keeps the
  cursor, so the draw after the shuffle starts at the second card, and the same draw
  after \<^verbatim>\<open>Reset\<close> starts at the first.
\<close>

theorem Reset_counterexample:
  "Draws (DeckOf [New 2 0, New 3 0, New 4 0]) [1] =
     Some ([[New 2 0]], \<lparr>I = 1, L = 3, V = [New 2 0, New 3 0, New 4 0]\<rparr>) \<and>
   Shuffle \<lparr>I = 1, L = 3, V = [New 2 0, New 3 0, New 4 0]\<rparr> sample_shuffler 1 =
     Some \<lparr>I = 1, L = 3, V = [New 4 0, New 3 0, New 2 0]\<rparr> \<and>
   Draws \<lparr>I = 1, L = 3, V = [New 4 0, New 3 0, New 2 0]\<rparr> [1] =
     Some ([[New 3 0]], \<lparr>I = 2, L = 3, V = [New 4 0, New 3 0, New 2 0]\<rparr>) \<and>
   Draws (Reset \<lparr>I = 2, L = 3, V = [New 4 0, New 3 0, New 2 0]\<rparr>) [1] =
     Some ([[New 4 0]], \<lparr>I = 1, L = 3, V = [New 4 0, New 3 0, New 2 0]\<rparr>)"
  by (simp add: Shuffle_def DeckOf_def sample_shuffler_def Draw_def int_wrap_def
      Draw_loop.simps Reset_def)

section \<open>Claims about the win view\<close>

text \<open>
  Claim C9.  \<^verbatim>\<open>Verb\<close> returns "scoops" whenever the scoop flag is set, whatever the
  pivot; otherwise "push" for a pivot above 2, "split" for a pivot of 2, "none" for a
  pivot of 0 and "wins" for every other pivot.  A tie of three or more is a "push".
\<close>

theorem Verb_cases:
  "(Scoop win \<longrightarrow> Verb win = ''scoops'') \<and>
   (\<not> Scoop win \<and> 2 < Pivot win \<longrightarrow> Verb win = ''push'') \<and>
   (\<not> Scoop win \<and> Pivot win = 2 \<longrightarrow> Verb win = ''split'') \<and>
   (\<not> Scoop win \<and> Pivot win = 0 \<longrightarrow> Verb win = ''none'') \<and>
   (\<not> Scoop win \<and> Pivot win < 2 \<and> Pivot win \<noteq> 0 \<longrightarrow> Verb win = ''wins'')"
  by (simp add: Verb_def)

theorem Verb_cases_witness:
  "Verb (sample_win 3 True) = ''scoops'' \<and> Verb (sample_win 0 True) = ''scoops'' \<and>
   Verb (sample_win 3 False) = ''push'' \<and> Verb (sample_win 2 False) = ''split'' \<and>
   Verb (sample_win 0 False) = ''none'' \<and> Verb (sample_win 1 False) = ''wins'' \<and>
   Verb (sample_win (- 1) False) = ''wins''"
  using Verb_cases [of "sample_win 3 True"] Verb_cases [of "sample_win 0 True"]
    Verb_cases [of "sample_win 3 False"] Verb_cases [of "sample_win 2 False"]
    Verb_cases [of "sample_win 0 False"] Verb_cases [of "sample_win 1 False"]
    Verb_cases [of "sample_win (- 1) False"]
  by (simp add: sample_win_def)

text \<open>
  Claim C6 does not hold of the code: \<^verbatim>\<open>Invalid\<close> answers false, not true, for a win
  whose pivot is 0 or whose evaluation list or order is empty.
\<close>

theorem Invalid_false_without_winners:
  assumes "Pivot win = 0 \<or> Evals_win win = [] \<or> Order win = []"
  shows "Invalid x (Some win) = Some False"
  using assms by (auto simp: Invalid_def)

theorem Invalid_false_without_winners_witness:
  "Pivot (sample_win 0 False) = 0 \<and> Invalid sample_ext (Some (sample_win 0 False)) = Some False \<and>
   Invalid sample_ext (Some (sample_win 1 False)) = Some True"
proof -
  have "Pivot (sample_win 0 False) = 0"
    by (simp add: sample_win_def)
  moreover from this have "Invalid sample_ext (Some (sample_win 0 False)) = Some False"
    by (intro Invalid_false_without_winners) simp
  moreover have "Invalid sample_ext (Some (sample_win 1 False)) = Some True"
    by (simp add: Invalid_def sample_win_def sample_ext_def)
  ultimately show ?thesis by simp
qed

section \<open>Claims about the dealer\<close>

lemma fold_delete_keys:
  "Mapping.keys (fold (\<lambda>position m. Mapping.delete position m) ps m) = Mapping.keys m - set ps"
  by (induction ps arbitrary: m) auto

text \<open>
  Claim C5, as amended.  \<^verbatim>\<open>Deactivate\<close> is rejected, and the dealer left as it is,
  exactly when the run index is neither \<open>-1\<close> nor \<open>0\<close>, that is once the dealer has
  advanced to a second run.  While the run index is \<open>-1\<close> or \<open>0\<close> the call returns true
  and removes the positions from the active set.
\<close>

theorem Deactivate_by_run_index:
  "(R d \<noteq> - 1 \<and> R d \<noteq> 0 \<longrightarrow> Deactivate d ps = (False, d)) \<and>
   (R d = - 1 \<or> R d = 0 \<longrightarrow>
      fst (Deactivate d ps) \<and>
      Mapping.keys (Active (snd (Deactivate d ps))) = Mapping.keys (Active d) - set ps)"
  by (simp add: Deactivate_def fold_delete_keys)

theorem Deactivate_by_run_index_witness:
  "NewDealer sample_desc sample_deck 2 = Some (sample_new 2) \<and>
   Next (sample_new 2) = Some (True, sample_dealt) \<and>
   ChangeRuns sample_dealt 2 = Some (True, sample_split) \<and>
   Nexts 3 sample_split = Some ([True, True, True], sample_second_run) \<and>
   R sample_second_run = 1 \<and>
   Deactivate sample_second_run [1] = (False, sample_second_run)"
proof -
  have r: "R sample_second_run = 1"
    by (simp add: sample_second_run_def sample_split_def sample_dealt_def)
  have "Deactivate sample_second_run [1] = (False, sample_second_run)"
    using Deactivate_by_run_index [of sample_second_run "[1]"] r by simp
  moreover have "NewDealer sample_desc sample_deck 2 = Some (sample_new 2)"
    by code_simp
  moreover have "Next (sample_new 2) = Some (True, sample_dealt)"
    by code_simp
  moreover have "ChangeRuns sample_dealt 2 = Some (True, sample_split)"
    by code_simp
  moreover have "Nexts 3 sample_split = Some ([True, True, True], sample_second_run)"
    by code_simp
  ultimately show ?thesis
    using r by simp
qed

text \<open>
  Claim C5 as stated fails: right after a successful \<^verbatim>\<open>ChangeRuns(2)\<close> the run index is
  still 0, and \<^verbatim>\<open>Deactivate(1)\<close> returns true and removes position 1.
\<close>

theorem Deactivate_counterexample:
  "NewDealer sample_desc sample_deck 2 = Some (sample_new 2) \<and>
   Next (sample_new 2) = Some (True, sample_dealt) \<and>
   ChangeRuns sample_dealt 2 = Some (True, sample_split) \<and>
   RunCount sample_split = 2 \<and> length (Runs sample_split) = 2 \<and>
   Deactivate sample_split [1] = (True, sample_split\<lparr>Active := sample_active [0]\<rparr>) \<and>
   lookup_active (Active sample_split) 1 \<and>
   \<not> lookup_active (sample_active [0]) 1"
  by code_simp

lemma Draw_one:
  assumes "0 \<le> I deck" and "L deck \<le> int (length (V deck))" and "I deck < L deck"
    and "L deck < 2 ^ 63"
  shows "Draw deck 1 = Some ([V deck ! nat (I deck)], deck\<lparr>I := I deck + 1\<rparr>)"
proof -
  have lt: "nat (I deck) < length (V deck)"
    using assms(1-3) by arith
  have "take (nat (min 1 (L deck - I deck))) (drop (nat (I deck)) (V deck)) =
        [V deck ! nat (I deck)]"
    using assms(3) lt by (simp add: min_def take_Suc_conv_app_nth)
  moreover have "max 0 (min 1 (L deck - I deck)) = 1"
    using assms(3) by simp
  moreover have "I deck + 1 < 2 ^ 63"
    using assms(3,4) by simp
  ultimately show ?thesis
    using Draw_props [OF assms(1,2), of 1] by simp
qed

lemma deal_round_from:
  assumes "0 \<le> I deck" and "L deck \<le> int (length (V deck))" and "L deck < 2 ^ 63"
    and "length (Pockets run) = c" and "k \<le> c" and "I deck + int (c - k) \<le> L deck"
  shows "deal_round (map int [k ..< c]) (run, deck) =
           Some (run\<lparr>Pockets := take k (Pockets run) @
                    map (\<lambda>i. Pockets run ! i @ [V deck ! (nat (I deck) + (i - k))]) [k ..< c]\<rparr>,
                 deck\<lparr>I := I deck + int (c - k)\<rparr>)"
  using assms
proof (induction "c - k" arbitrary: k run deck)
  case 0
  then have "k = c" by simp
  then show ?case using "0.prems"(4) by simp
next
  case (Suc m)
  then have lt: "k < c" by arith
  let ?card = "V deck ! nat (I deck)"
  let ?run = "run\<lparr>Pockets := (Pockets run)[k := Pockets run ! k @ [?card]]\<rparr>"
  let ?deck = "deck\<lparr>I := I deck + 1\<rparr>"
  have il: "I deck < L deck"
    using Suc.prems(6) lt by simp
  have dr: "Draw deck 1 = Some ([?card], ?deck)"
    using Draw_one [OF Suc.prems(1,2) il Suc.prems(3)] .
  have step: "deal_round (map int [k ..< c]) (run, deck) =
              deal_round (map int [Suc k ..< c]) (?run, ?deck)"
    using lt Suc.prems(4) dr by (simp add: upt_conv_Cons)
  have m: "m = c - Suc k" using Suc.hyps(2) by simp
  have pre: "0 \<le> I ?deck" "L ?deck \<le> int (length (V ?deck))" "L ?deck < 2 ^ 63"
    "length (Pockets ?run) = c" "Suc k \<le> c" "I ?deck + int (c - Suc k) \<le> L ?deck"
    using Suc.prems lt by simp_all
  have ih: "deal_round (map int [Suc k ..< c]) (?run, ?deck) =
      Some (?run\<lparr>Pockets := take (Suc k) (Pockets ?run) @
               map (\<lambda>i. Pockets ?run ! i @ [V ?deck ! (nat (I ?deck) + (i - Suc k))])
                 [Suc k ..< c]\<rparr>,
            ?deck\<lparr>I := I ?deck + int (c - Suc k)\<rparr>)"
    by (rule Suc.hyps(1) [OF m pre])
  have kl: "k < length (Pockets run)"
    using lt Suc.prems(4) by simp
  have t: "take (Suc k) (Pockets ?run) = take k (Pockets run) @ [Pockets run ! k @ [?card]]"
    using kl by (simp add: take_Suc_conv_app_nth)
  have mp: "map (\<lambda>i. Pockets ?run ! i @ [V ?deck ! (nat (I ?deck) + (i - Suc k))]) [Suc k ..< c] =
            map (\<lambda>i. Pockets run ! i @ [V deck ! (nat (I deck) + (i - k))]) [Suc k ..< c]"
  proof (rule map_cong [OF refl])
    fix i assume "i \<in> set [Suc k ..< c]"
    then have i: "Suc k \<le> i" by simp
    have "nat (I deck + 1) + (i - Suc k) = nat (I deck) + (i - k)"
      using i Suc.prems(1) by arith
    then show "Pockets ?run ! i @ [V ?deck ! (nat (I ?deck) + (i - Suc k))] =
               Pockets run ! i @ [V deck ! (nat (I deck) + (i - k))]"
      using i by simp
  qed
  have u: "[k ..< c] = k # [Suc k ..< c]"
    using lt by (simp add: upt_conv_Cons)
  have cnt: "I deck + 1 + int (c - Suc k) = I deck + int (c - k)"
    using lt by arith
  have fin: "Some (?run\<lparr>Pockets := take (Suc k) (Pockets ?run) @
               map (\<lambda>i. Pockets ?run ! i @ [V ?deck ! (nat (I ?deck) + (i - Suc k))])
                 [Suc k ..< c]\<rparr>,
            ?deck\<lparr>I := I ?deck + int (c - Suc k)\<rparr>) =
        Some (run\<lparr>Pockets := take k (Pockets run) @
                    map (\<lambda>i. Pockets run ! i @ [V deck ! (nat (I deck) + (i - k))]) [k ..< c]\<rparr>,
                 deck\<lparr>I := I deck + int (c - k)\<rparr>)"
    unfolding t mp u by (simp add: cnt)
  show ?case
    by (rule trans [OF step trans [OF ih fin]])
qed

lemma deal_round_all:
  assumes "0 \<le> I deck" and "L deck \<le> int (length (V deck))" and "L deck < 2 ^ 63"
    and "length (Pockets run) = c" and "I deck + int c \<le> L deck"
  shows "deal_round (map int [0 ..< c]) (run, deck) =
           Some (run\<lparr>Pockets :=
                    map (\<lambda>i. Pockets run ! i @ [V deck ! (nat (I deck) + i)]) [0 ..< c]\<rparr>,
                 deck\<lparr>I := I deck + int c\<rparr>)"
  using deal_round_from [OF assms(1-4), of 0] assms(5) by simp


lemma deal_rounds_all:
  assumes "0 \<le> I deck" and "L deck \<le> int (length (V deck))" and "L deck < 2 ^ 63"
    and "length (Pockets run) = c" and "I deck + int (p * c) \<le> L deck"
  shows "deal_rounds p (map int [0 ..< c]) (run, deck) =
           Some (run\<lparr>Pockets :=
                    map (\<lambda>i. Pockets run ! i @
                               map (\<lambda>r. V deck ! (nat (I deck) + r * c + i)) [0 ..< p])
                      [0 ..< c]\<rparr>,
                 deck\<lparr>I := I deck + int (p * c)\<rparr>)"
  using assms
proof (induction p arbitrary: run deck)
  case 0
  have "map (\<lambda>i. Pockets run ! i) [0 ..< c] = Pockets run"
    unfolding "0.prems"(4) [symmetric] by (rule map_nth)
  then show ?case by simp
next
  case (Suc p)
  let ?run = "run\<lparr>Pockets :=
                 map (\<lambda>i. Pockets run ! i @ [V deck ! (nat (I deck) + i)]) [0 ..< c]\<rparr>"
  let ?deck = "deck\<lparr>I := I deck + int c\<rparr>"
  have le1: "I deck + int c \<le> L deck"
  proof -
    have "int (Suc p * c) = int c + int (p * c)"
      by simp
    moreover have "0 \<le> int (p * c)"
      by (rule of_nat_0_le_iff)
    ultimately show ?thesis
      using Suc.prems(5) by linarith
  qed
  have r1: "deal_round (map int [0 ..< c]) (run, deck) = Some (?run, ?deck)"
    using deal_round_all [OF Suc.prems(1-4) le1] .
  have pre: "0 \<le> I ?deck" "L ?deck \<le> int (length (V ?deck))" "L ?deck < 2 ^ 63"
    "length (Pockets ?run) = c" "I ?deck + int (p * c) \<le> L ?deck"
    using Suc.prems by (simp_all add: distrib_right)
  have ih: "deal_rounds p (map int [0 ..< c]) (?run, ?deck) =
      Some (?run\<lparr>Pockets :=
               map (\<lambda>i. Pockets ?run ! i @
                          map (\<lambda>r. V ?deck ! (nat (I ?deck) + r * c + i)) [0 ..< p])
                 [0 ..< c]\<rparr>,
            ?deck\<lparr>I := I ?deck + int (p * c)\<rparr>)"
    by (rule Suc.IH [OF pre])
  have mp: "map (\<lambda>i. Pockets ?run ! i @
                          map (\<lambda>r. V ?deck ! (nat (I ?deck) + r * c + i)) [0 ..< p]) [0 ..< c] =
            map (\<lambda>i. Pockets run ! i @
                          map (\<lambda>r. V deck ! (nat (I deck) + r * c + i)) [0 ..< Suc p]) [0 ..< c]"
  proof (rule map_cong [OF refl])
    fix i assume "i \<in> set [0 ..< c]"
    then have i: "i < c" by simp
    have n: "nat (I deck + int c) = nat (I deck) + c"
      using Suc.prems(1) by arith
    have "map (\<lambda>r. V deck ! (nat (I deck) + r * c + i)) [0 ..< Suc p] =
          V deck ! (nat (I deck) + i) #
          map (\<lambda>r. V deck ! (nat (I deck) + c + r * c + i)) [0 ..< p]"
      by (simp add: map_upt_Suc add.assoc del: upt_Suc)
    then show "Pockets ?run ! i @
                 map (\<lambda>r. V ?deck ! (nat (I ?deck) + r * c + i)) [0 ..< p] =
               Pockets run ! i @
                 map (\<lambda>r. V deck ! (nat (I deck) + r * c + i)) [0 ..< Suc p]"
      using i by (simp add: n del: upt_Suc)
  qed
  have cnt: "I deck + int c + int (p * c) = I deck + int (Suc p * c)"
    by (simp add: distrib_right)
  have "deal_rounds (Suc p) (map int [0 ..< c]) (run, deck) =
        deal_rounds p (map int [0 ..< c]) (?run, ?deck)"
    using r1 by simp
  also note ih
  finally show ?case
    unfolding mp by (simp add: cnt del: upt_Suc)
qed

text \<open>
  What \<^verbatim>\<open>Deal\<close> does on a street with pocket cards, while the cards last: after the
  burn, round \<open>r\<close> hands position \<open>i\<close> the card \<open>r * Count + i\<close> places further on, for
  every position below \<^verbatim>\<open>Count\<close> in ascending order, whether the position is active
  or not.
\<close>

lemma Deal_pockets_round_robin:
  assumes "0 < Pocket desc"
    and "0 \<le> I deck" and "L deck \<le> int (length (V deck))" and "L deck < 2 ^ 63"
    and "length (Pockets run) = nat (Count d)"
    and "I deck + max 0 (PocketDiscard desc) + Pocket desc * int (nat (Count d)) \<le> L deck"
  shows "Deal_pockets d desc (run, deck) =
           Some (run\<lparr>Discard := Discard run @
                    take (nat (PocketDiscard desc)) (drop (nat (I deck)) (V deck)),
                  Pockets :=
                    map (\<lambda>i. Pockets run ! i @
                          map (\<lambda>r. V deck ! (nat (I deck) + nat (PocketDiscard desc) +
                                               r * nat (Count d) + i))
                            [0 ..< nat (Pocket desc)])
                      [0 ..< nat (Count d)]\<rparr>,
                 deck\<lparr>I := I deck + max 0 (PocketDiscard desc) +
                             Pocket desc * int (nat (Count d))\<rparr>)"
proof -
  let ?n = "PocketDiscard desc"
  let ?c = "nat (Count d)"
  let ?p = "nat (Pocket desc)"
  let ?run1 = "run\<lparr>Discard := Discard run @ take (nat ?n) (drop (nat (I deck)) (V deck))\<rparr>"
  let ?deck1 = "deck\<lparr>I := I deck + max 0 ?n\<rparr>"
  have pc: "0 \<le> Pocket desc * int ?c"
    using assms(1) by simp
  have first: "(if 0 < ?n then draw_to to_Discard ?n (run, deck) else Some (run, deck)) =
               Some (?run1, ?deck1)"
  proof (cases "0 < ?n")
    case False
    then show ?thesis by simp
  next
    case True
    have le: "?n \<le> L deck - I deck"
      using assms(6) pc True by arith
    have "I deck + ?n < 2 ^ 63"
      using le assms(4) by arith
    from Draw_props [OF assms(2,3) this] True le
    have "Draw deck ?n = Some (take (nat ?n) (drop (nat (I deck)) (V deck)),
                               deck\<lparr>I := I deck + ?n\<rparr>)"
      by (simp add: min_def max_def)
    then show ?thesis
      using True by (simp add: draw_to_def to_Discard_def max_def)
  qed
  have pre: "0 \<le> I ?deck1" "L ?deck1 \<le> int (length (V ?deck1))" "L ?deck1 < 2 ^ 63"
    "length (Pockets ?run1) = ?c" "I ?deck1 + int (?p * ?c) \<le> L ?deck1"
    using assms by simp_all
  have n1: "nat (I deck + max 0 ?n) = nat (I deck) + nat ?n"
    using assms(2) by arith
  have i1: "I deck + max 0 ?n + int (?p * ?c) = I deck + max 0 ?n + Pocket desc * int ?c"
    using assms(1) by simp
  have "Deal_pockets d desc (run, deck) =
        deal_rounds ?p (map int [0 ..< ?c]) (?run1, ?deck1)"
    using assms(1) first by (simp add: Deal_pockets_def positions_def)
  also note deal_rounds_all [OF pre]
  finally show ?thesis
    using assms(1) by (simp add: n1)
qed

lemma Deal_pockets_Active: "Deal_pockets (d\<lparr>Active := a\<rparr>) = Deal_pockets d"
  by (intro ext) (simp add: Deal_pockets_def positions_def cong: option.case_cong)

lemma Deal_board_Active: "Deal_board (d\<lparr>Active := a\<rparr>) = Deal_board d"
  by (intro ext) (simp add: Deal_board_def cong: option.case_cong)

text \<open>
  Claim C2 does not hold of the code: \<^verbatim>\<open>Deal\<close> never consults the active set, so a
  deactivated position is dealt pocket cards like every other position below \<^verbatim>\<open>Count\<close>.
\<close>

theorem Deal_ignores_Active:
  "Deal (d\<lparr>Active := a\<rparr>) street run = Deal d street run"
  by (simp add: Deal_def Deal_pockets_Active Deal_board_Active cong: option.case_cong)

theorem Deal_ignores_Active_witness:
  "NewDealer sample_desc sample_deck 3 = Some (sample_new 3) \<and>
   Deactivate (sample_new 3) [0] = (True, sample_folded) \<and>
   lookup_active (Active sample_folded) 0 = False \<and>
   Deal sample_folded 0 \<lparr>Discard = [], Pockets = [[], [], []], Hi = [], Lo = []\<rparr> =
     Some (\<lparr>Discard = [], Pockets = [[New 2 0], [New 3 0], [New 4 0]], Hi = [], Lo = []\<rparr>,
           sample_deck\<lparr>I := 3\<rparr>) \<and>
   Next sample_folded =
     Some (True, sample_folded
       \<lparr>Deck := sample_deck\<lparr>I := 3\<rparr>,
        Runs := [\<lparr>Discard = [], Pockets = [[New 2 0], [New 3 0], [New 4 0]],
                  Hi = [], Lo = []\<rparr>],
        S := 0, R := 0\<rparr>)"
proof -
  have a: "Deal (sample_new 3) 0 \<lparr>Discard = [], Pockets = [[], [], []], Hi = [], Lo = []\<rparr> =
     Some (\<lparr>Discard = [], Pockets = [[New 2 0], [New 3 0], [New 4 0]], Hi = [], Lo = []\<rparr>,
           sample_deck\<lparr>I := 3\<rparr>)"
    by code_simp
  have "Deal sample_folded 0 \<lparr>Discard = [], Pockets = [[], [], []], Hi = [], Lo = []\<rparr> =
     Some (\<lparr>Discard = [], Pockets = [[New 2 0], [New 3 0], [New 4 0]], Hi = [], Lo = []\<rparr>,
           sample_deck\<lparr>I := 3\<rparr>)"
    unfolding sample_folded_def using Deal_ignores_Active a by simp
  moreover have "NewDealer sample_desc sample_deck 3 = Some (sample_new 3)"
    by code_simp
  moreover have "Deactivate (sample_new 3) [0] = (True, sample_folded)"
    by code_simp
  moreover have "lookup_active (Active sample_folded) 0 = False"
    by code_simp
  moreover have "Next sample_folded =
     Some (True, sample_folded
       \<lparr>Deck := sample_deck\<lparr>I := 3\<rparr>,
        Runs := [\<lparr>Discard = [], Pockets = [[New 2 0], [New 3 0], [New 4 0]],
                  Hi = [], Lo = []\<rparr>],
        S := 0, R := 0\<rparr>)"
    by code_simp
  ultimately show ?thesis by simp
qed

lemma results_loop_total:
  "\<forall>i\<in>set js. i < length (Runs d) \<Longrightarrow>
   \<exists>rs'. results_loop x d js rs = Some rs' \<and> length rs' = length rs"
proof (induction js arbitrary: rs)
  case Nil
  then show ?case by simp
next
  case (Cons j js)
  let ?rs = "rs[j := NewResult x (Type (TypeDesc d)) (Runs d ! j) (Some (Active d)) False]"
  from Cons.IH [of ?rs] Cons.prems obtain rs' where
    "results_loop x d js ?rs = Some rs'" "length rs' = length ?rs"
    by auto
  then show ?case
    using Cons.prems by simp
qed

lemma compute_results_total:
  assumes "Results d = None" and "0 \<le> RunCount d" and "nat (RunCount d) \<le> length (Runs d)"
    and "1 < Mapping.size (Active d) \<or> Max_desc (TypeDesc d) = 1 \<or>
         Mapping.size (Active d) = 1 \<and> RunCount d = 1"
  shows "\<exists>rs. compute_results x d = Some (d\<lparr>Results := Some rs\<rparr>) \<and>
           length rs = nat (RunCount d)"
proof (cases "Mapping.size (Active d) = 1 \<and> RunCount d = 1 \<and> Max_desc (TypeDesc d) \<noteq> 1")
  case True
  let ?res = "\<lparr>Evals = [Some (EvalOf x (Type (TypeDesc d)))],
                HiOrder = [first_active d 0], HiPivot = 1, LoOrder = [], LoPivot = 0\<rparr>"
  let ?res' = "if Low_desc (TypeDesc d) \<or> Double_desc (TypeDesc d)
               then ?res\<lparr>LoOrder := HiOrder ?res, LoPivot := HiPivot ?res\<rparr> else ?res"
  have "compute_results x d = Some (d\<lparr>Results := Some [?res']\<rparr>)"
    using True assms(1) by (simp add: compute_results_def Let_def)
  moreover have "length [?res'] = nat (RunCount d)"
    using True by simp
  ultimately show ?thesis
    by blast
next
  case False
  with assms(4) have second: "1 < Mapping.size (Active d) \<or> Max_desc (TypeDesc d) = 1"
    by auto
  have "\<forall>i\<in>set [0 ..< nat (RunCount d)]. i < length (Runs d)"
    using assms(3) by simp
  from results_loop_total [OF this, of x "replicate (nat (RunCount d)) nil_result"]
  obtain rs where rs: "results_loop x d [0 ..< nat (RunCount d)]
      (replicate (nat (RunCount d)) nil_result) = Some rs" "length rs = nat (RunCount d)"
    by auto
  have "compute_results x d = Some (d\<lparr>Results := Some rs\<rparr>)"
    using False second assms(1,2) rs(1) by (auto simp: compute_results_def Let_def)
  then show ?thesis
    using rs(2) by blast
qed

lemma NextResult_later:
  assumes "Results d = Some rs"
  shows "NextResult x d =
           (if RunCount d \<le> E d then Some (False, d)
            else Some (E d + 1 < RunCount d, d\<lparr>E := E d + 1\<rparr>))"
  using assms by (simp add: NextResult_def Let_def)

text \<open>
  Where \<^verbatim>\<open>NextResult\<close> does compute the results (more than one active position, or a
  variant capped at one participant, or one active position and a single run), it
  returns true exactly \<^verbatim>\<open>RunCount\<close> times and false ever after, the cursor \<^verbatim>\<open>E\<close> stops at
  \<^verbatim>\<open>RunCount\<close>, and after each true \<^verbatim>\<open>Result\<close> returns the cursor and the result at it.
\<close>

lemma NextResults_iteration:
  assumes "Results d = None" and "E d = - 1" and "1 \<le> RunCount d"
    and "nat (RunCount d) \<le> length (Runs d)"
    and "1 < Mapping.size (Active d) \<or> Max_desc (TypeDesc d) = 1 \<or>
         Mapping.size (Active d) = 1 \<and> RunCount d = 1"
  shows "\<exists>rs. length rs = nat (RunCount d) \<and>
           (\<forall>k. 1 \<le> k \<and> k \<le> nat (RunCount d) \<longrightarrow>
              NextResults x k d =
                Some (replicate k True, d\<lparr>Results := Some rs, E := int k - 1\<rparr>) \<and>
              Result (d\<lparr>Results := Some rs, E := int k - 1\<rparr>) =
                Some (int k - 1, Some (rs ! (k - 1)))) \<and>
           (\<forall>m. NextResults x (nat (RunCount d) + Suc m) d =
              Some (replicate (nat (RunCount d)) True @ replicate (Suc m) False,
                    d\<lparr>Results := Some rs, E := RunCount d\<rparr>))"
proof -
  let ?n = "nat (RunCount d)"
  from compute_results_total [OF assms(1) _ assms(4,5), of x] assms(3) obtain rs where
    rs: "compute_results x d = Some (d\<lparr>Results := Some rs\<rparr>)" "length rs = ?n"
    by auto
  let ?at = "\<lambda>e. d\<lparr>Results := Some rs, E := e\<rparr>"
  have first: "NextResult x d = Some (True, ?at 0)"
    using assms(1-3) rs(1) by (simp add: NextResult_def Let_def)
  have later: "NextResult x (?at e) =
      (if RunCount d \<le> e then Some (False, ?at e) else Some (e + 1 < RunCount d, ?at (e + 1)))"
    for e
    using NextResult_later [of "?at e" rs x] by simp
  have up: "NextResults x k d = Some (replicate k True, ?at (int k - 1))"
    if "1 \<le> k" "k \<le> ?n" for k
    using that
  proof (induction k)
    case 0
    then show ?case by simp
  next
    case (Suc k)
    show ?case
    proof (cases "k = 0")
      case True
      then show ?thesis using first by simp
    next
      case False
      with Suc have "NextResults x k d = Some (replicate k True, ?at (int k - 1))"
        by simp
      moreover have "\<not> RunCount d \<le> int k - 1" "int k - 1 + 1 < RunCount d"
        using Suc.prems(2) by linarith+
      then have "NextResult x (?at (int k - 1)) = Some (True, ?at (int k))"
        using later [of "int k - 1"] by simp
      ultimately show ?thesis
        by (simp add: replicate_append_same)
    qed
  qed
  have res: "Result (?at (int k - 1)) = Some (int k - 1, Some (rs ! (k - 1)))"
    if "1 \<le> k" "k \<le> ?n" for k
  proof -
    have "0 \<le> int k - 1" "int k - 1 < RunCount d" "nat (int k - 1) = k - 1" "k - 1 < length rs"
      using that rs(2) by linarith+
    then show ?thesis
      by (simp add: Result_def)
  qed
  have top: "NextResults x ?n d = Some (replicate ?n True, ?at (RunCount d - 1))"
    using up [of ?n] assms(3) by simp
  have down: "NextResults x (?n + Suc m) d =
      Some (replicate ?n True @ replicate (Suc m) False, ?at (RunCount d))" for m
  proof (induction m)
    case 0
    have "NextResult x (?at (RunCount d - 1)) = Some (False, ?at (RunCount d))"
      using later [of "RunCount d - 1"] by simp
    then show ?case
      using top by simp
  next
    case (Suc m)
    have "NextResult x (?at (RunCount d)) = Some (False, ?at (RunCount d))"
      using later [of "RunCount d"] by simp
    then show ?case
      using Suc by (simp add: replicate_append_same)
  qed
  show ?thesis
    using rs(2) up res down by blast
qed

text \<open>
  Claim C10 does not hold of the code.  With exactly one active position, more than one
  run and a variant that allows more than one participant, \<^verbatim>\<open>NextResult\<close> computes no
  results and still returns true; \<^verbatim>\<open>Result\<close> then indexes the nil slice and panics.
\<close>

theorem NextResult_without_results:
  assumes "Results d = None" and "E d = - 1"
    and "Mapping.size (Active d) = 1" and "1 < RunCount d" and "Max_desc (TypeDesc d) \<noteq> 1"
  shows "NextResult x d = Some (True, d\<lparr>E := 0\<rparr>) \<and> Results (d\<lparr>E := 0\<rparr>) = None \<and>
         Result (d\<lparr>E := 0\<rparr>) = None"
  using assms by (simp add: NextResult_def compute_results_def Result_def)

theorem NextResult_without_results_witness:
  "NewDealer sample_desc sample_deck 2 = Some (sample_new 2) \<and>
   Next (sample_new 2) = Some (True, sample_dealt) \<and>
   ChangeRuns sample_dealt 2 = Some (True, sample_split) \<and>
   Deactivate sample_split [1] = (True, sample_one_left) \<and>
   Mapping.size (Active sample_one_left) = 1 \<and>
   NextResult sample_ext sample_one_left = Some (True, sample_one_left\<lparr>E := 0\<rparr>) \<and>
   Result (sample_one_left\<lparr>E := 0\<rparr>) = None"
proof -
  have a: "Results sample_one_left = None" "E sample_one_left = - 1"
    "1 < RunCount sample_one_left" "Max_desc (TypeDesc sample_one_left) \<noteq> 1"
    by (simp_all add: sample_one_left_def sample_split_def sample_dealt_def sample_desc_def)
  have b: "Mapping.size (Active sample_one_left) = 1"
    by code_simp
  have "ChangeRuns sample_dealt 2 = Some (True, sample_split)"
    by code_simp
  moreover have "Deactivate sample_split [1] = (True, sample_one_left)"
    by code_simp
  moreover have "NewDealer sample_desc sample_deck 2 = Some (sample_new 2)"
    by code_simp
  moreover have "Next (sample_new 2) = Some (True, sample_dealt)"
    by code_simp
  ultimately show ?thesis
    using NextResult_without_results [OF a(1,2) b a(3,4), of sample_ext] b by simp
qed

section \<open>The dealer over a single run\<close>

lemma Draw_total:
  assumes "deck_ok deck"
  shows "\<exists>cs deck'. Draw deck n = Some (cs, deck') \<and> deck_ok deck'"
proof (cases "n < 0")
  case True
  with assms show ?thesis by (simp add: Draw_def)
next
  case False
  let ?l = "min (int_wrap (I deck + n)) (L deck)"
  have "0 \<le> I deck" and le: "?l \<le> int (length (V deck))"
    using assms by (auto simp: deck_ok_def)
  from Draw_loop_spec [OF this, of "[]"] False
  have "Draw deck n =
      Some (take (nat (?l - I deck)) (drop (nat (I deck)) (V deck)), deck\<lparr>I := max (I deck) ?l\<rparr>)"
    by (simp add: Draw_def)
  moreover have "deck_ok (deck\<lparr>I := max (I deck) ?l\<rparr>)"
    using assms by (auto simp: deck_ok_def)
  ultimately show ?thesis by blast
qed

lemma draw_to_total:
  assumes "deck_ok (snd rd)"
    and "\<And>cs run. length (Pockets (upd cs run)) = length (Pockets run)"
  shows "\<exists>rd'. draw_to upd n rd = Some rd' \<and> deck_ok (snd rd') \<and>
           length (Pockets (fst rd')) = length (Pockets (fst rd))"
proof -
  from Draw_total [OF assms(1), of n] obtain cs deck'
    where "Draw (snd rd) n = Some (cs, deck')" "deck_ok deck'" by blast
  then show ?thesis
    by (simp add: draw_to_def assms(2))
qed

lemma deal_round_total:
  assumes "deck_ok deck" and "\<forall>i\<in>set ps. 0 \<le> i \<and> i < int (length (Pockets run))"
  shows "\<exists>rd'. deal_round ps (run, deck) = Some rd' \<and> deck_ok (snd rd') \<and>
           length (Pockets (fst rd')) = length (Pockets run)"
  using assms
proof (induction ps arbitrary: run deck)
  case Nil
  then show ?case by simp
next
  case (Cons i ps)
  from Draw_total [OF Cons.prems(1), of 1] obtain cs deck'
    where d: "Draw deck 1 = Some (cs, deck')" "deck_ok deck'" by blast
  let ?run = "run\<lparr>Pockets := (Pockets run)[nat i := Pockets run ! nat i @ cs]\<rparr>"
  have "\<forall>i\<in>set ps. 0 \<le> i \<and> i < int (length (Pockets ?run))"
    using Cons.prems(2) by simp
  from Cons.IH [OF d(2) this] obtain rd' where
    "deal_round ps (?run, deck') = Some rd'" "deck_ok (snd rd')"
    "length (Pockets (fst rd')) = length (Pockets ?run)" by blast
  then show ?case
    using Cons.prems(2) d(1) by simp
qed

lemma deal_rounds_total:
  assumes "deck_ok (snd rd)" and "\<forall>i\<in>set ps. 0 \<le> i \<and> i < int (length (Pockets (fst rd)))"
  shows "\<exists>rd'. deal_rounds k ps rd = Some rd' \<and> deck_ok (snd rd') \<and>
           length (Pockets (fst rd')) = length (Pockets (fst rd))"
  using assms
proof (induction k arbitrary: rd)
  case 0
  then show ?case by simp
next
  case (Suc k)
  obtain run deck where rd: "rd = (run, deck)" by (cases rd)
  from deal_round_total [of deck ps run] Suc.prems rd obtain rd1 where
    a: "deal_round ps rd = Some rd1" "deck_ok (snd rd1)"
       "length (Pockets (fst rd1)) = length (Pockets (fst rd))" by auto
  from Suc.IH [of rd1] a Suc.prems(2) obtain rd' where
    "deal_rounds k ps rd1 = Some rd'" "deck_ok (snd rd')"
    "length (Pockets (fst rd')) = length (Pockets (fst rd1))" by auto
  then show ?case
    using a by simp
qed

lemma positions_in_range: "\<forall>i\<in>set (positions d). 0 \<le> i \<and> i < int (nat (Count d))"
  by (auto simp: positions_def)

lemma draw_step:
  assumes "deck_ok (snd rd)" and "length (Pockets (fst rd)) = m"
    and "\<And>cs run. length (Pockets (upd cs run)) = length (Pockets run)"
  shows "\<exists>rd'. (if c then draw_to upd n rd else Some rd) = Some rd' \<and> deck_ok (snd rd') \<and>
           length (Pockets (fst rd')) = m"
proof (cases c)
  case True
  then show ?thesis
    using draw_to_total [OF assms(1), of upd n] assms(2,3) by simp
next
  case False
  then show ?thesis
    using assms(1,2) by simp
qed

lemma Deal_pockets_total:
  assumes "deck_ok (snd rd)" and "length (Pockets (fst rd)) = nat (Count d)"
  shows "\<exists>rd'. Deal_pockets d desc rd = Some rd' \<and> deck_ok (snd rd') \<and>
           length (Pockets (fst rd')) = nat (Count d)"
proof (cases "0 < Pocket desc")
  case False
  then show ?thesis using assms by (simp add: Deal_pockets_def)
next
  case True
  have "\<exists>rd1. (if 0 < PocketDiscard desc then draw_to to_Discard (PocketDiscard desc) rd
               else Some rd) = Some rd1 \<and> deck_ok (snd rd1) \<and>
               length (Pockets (fst rd1)) = nat (Count d)"
    using draw_step [OF assms, of to_Discard "0 < PocketDiscard desc" "PocketDiscard desc"]
    by (simp add: to_Discard_def)
  then obtain rd1 where a:
    "(if 0 < PocketDiscard desc then draw_to to_Discard (PocketDiscard desc) rd
      else Some rd) = Some rd1" "deck_ok (snd rd1)" "length (Pockets (fst rd1)) = nat (Count d)"
    by blast
  from deal_rounds_total [OF a(2), of "positions d" "nat (Pocket desc)"]
    positions_in_range [of d] a(3)
  obtain rd' where "deal_rounds (nat (Pocket desc)) (positions d) rd1 = Some rd'"
    "deck_ok (snd rd')" "length (Pockets (fst rd')) = nat (Count d)" by auto
  then show ?thesis
    using True a(1) by (simp add: Deal_pockets_def)
qed

lemma Deal_board_total:
  assumes "deck_ok (snd rd)" and "length (Pockets (fst rd)) = nat (Count d)"
  shows "\<exists>rd'. Deal_board d desc rd = Some rd' \<and> deck_ok (snd rd') \<and>
           length (Pockets (fst rd')) = nat (Count d)"
proof (cases "0 < Board desc")
  case False
  then show ?thesis using assms by (simp add: Deal_board_def)
next
  case True
  from draw_step [OF assms, of to_Discard "0 < BoardDiscard desc" "BoardDiscard desc"]
  obtain rd1 where a:
    "(if 0 < BoardDiscard desc then draw_to to_Discard (BoardDiscard desc) rd else Some rd)
       = Some rd1" "deck_ok (snd rd1)" "length (Pockets (fst rd1)) = nat (Count d)"
    by (auto simp: to_Discard_def)
  from draw_step [OF a(2,3), of to_Hi True "Board desc"]
  obtain rd2 where b: "draw_to to_Hi (Board desc) rd1 = Some rd2" "deck_ok (snd rd2)"
    "length (Pockets (fst rd2)) = nat (Count d)"
    by (auto simp: to_Hi_def)
  from draw_step [OF b(2,3), of to_Discard "0 < BoardDiscard desc" "BoardDiscard desc"]
  obtain rd3 where c:
    "(if 0 < BoardDiscard desc then draw_to to_Discard (BoardDiscard desc) rd2 else Some rd2)
       = Some rd3" "deck_ok (snd rd3)" "length (Pockets (fst rd3)) = nat (Count d)"
    by (auto simp: to_Discard_def)
  from draw_step [OF c(2,3), of to_Lo True "Board desc"]
  obtain rd4 where e: "draw_to to_Lo (Board desc) rd3 = Some rd4" "deck_ok (snd rd4)"
    "length (Pockets (fst rd4)) = nat (Count d)"
    by (auto simp: to_Lo_def)
  show ?thesis
  proof (cases "Double_desc (TypeDesc d)")
    case True
    then show ?thesis
      using \<open>0 < Board desc\<close> a(1) b(1) c(1) e by (simp add: Deal_board_def)
  next
    case False
    then show ?thesis
      using \<open>0 < Board desc\<close> a(1) b by (simp add: Deal_board_def)
  qed
qed

lemma Deal_total:
  assumes "deck_ok (Deck d)" and "length (Pockets run) = nat (Count d)"
    and "0 \<le> street" and "street < int (length (Streets (TypeDesc d)))"
  shows "\<exists>run' deck'. Deal d street run = Some (run', deck') \<and> deck_ok deck' \<and>
           length (Pockets run') = nat (Count d)"
proof -
  let ?desc = "Streets (TypeDesc d) ! nat street"
  from Deal_pockets_total [of "(run, Deck d)" d ?desc] assms obtain rd1 where
    a: "Deal_pockets d ?desc (run, Deck d) = Some rd1" "deck_ok (snd rd1)"
       "length (Pockets (fst rd1)) = nat (Count d)" by auto
  from Deal_board_total [OF a(2,3), of ?desc] obtain rd2 where
    b: "Deal_board d ?desc rd1 = Some rd2" "deck_ok (snd rd2)"
       "length (Pockets (fst rd2)) = nat (Count d)" by blast
  show ?thesis
    using assms(3,4) a(1) b by (cases rd2) (simp add: Deal_def)
qed


lemma Deal_pockets_SR: "Deal_pockets (d\<lparr>S := s, R := r\<rparr>) = Deal_pockets d"
  by (intro ext) (simp add: Deal_pockets_def positions_def cong: option.case_cong)

lemma Deal_board_SR: "Deal_board (d\<lparr>S := s, R := r\<rparr>) = Deal_board d"
  by (intro ext) (simp add: Deal_board_def cong: option.case_cong)

lemma Deal_SR: "Deal (d\<lparr>S := s, R := r\<rparr>) street run = Deal d street run"
  by (simp add: Deal_def Deal_pockets_SR Deal_board_SR cong: option.case_cong)

lemma Deal_streets_snoc:
  "Deal_streets d (xs @ [x]) =
     (case Deal_streets d xs of None \<Rightarrow> None | Some d' \<Rightarrow> Deal_streets d' [x])"
  by (induction xs arbitrary: d) (auto split: option.splits)

lemma Deal_streets_step:
  assumes "single_run_ok d" and "0 \<le> street" and "street < int (length (Streets (TypeDesc d)))"
  shows "\<exists>run' deck'. Deal d street (Runs d ! 0) = Some (run', deck') \<and>
           Deal_streets d [street] = Some (d\<lparr>Deck := deck', Runs := [run']\<rparr>) \<and>
           single_run_ok (d\<lparr>Deck := deck', Runs := [run']\<rparr>)"
proof -
  from assms(1) obtain r where r: "Runs d = [r]"
    by (cases "Runs d") (auto simp: single_run_ok_def)
  from Deal_total [of d r street] assms r obtain run' deck' where
    a: "Deal d street r = Some (run', deck')" "deck_ok deck'"
       "length (Pockets run') = nat (Count d)"
    by (auto simp: single_run_ok_def)
  have "single_run_ok (d\<lparr>Deck := deck', Runs := [run']\<rparr>)"
    using assms(1) a(2,3) by (simp add: single_run_ok_def)
  then show ?thesis
    using a(1) r by simp
qed

lemma Next_deals:
  assumes "single_run_ok d"
    and "S d = - 1 \<and> R d = - 1 \<and> k = 0 \<or> S d = int k - 1 \<and> R d = 0 \<and> 0 < k"
    and "k < length (Streets (TypeDesc d))"
    and "Deal d (int k) (Runs d ! 0) = Some (run', deck')"
  shows "Next d = Some (True, d\<lparr>S := int k, R := 0, Deck := deck', Runs := [run']\<rparr>)"
proof -
  from assms(1) obtain r where r: "Runs d = [r]"
    by (cases "Runs d") (auto simp: single_run_ok_def)
  let ?d1 = "d\<lparr>S := int k, R := 0\<rparr>"
  have d1: "(if S d = - 1 \<and> R d = - 1 then d\<lparr>S := 0, R := 0\<rparr> else d\<lparr>S := S d + 1\<rparr>) = ?d1"
    using assms(2) by auto
  have act: "HasActive ?d1"
    using assms(1) by (simp add: HasActive_def single_run_ok_def)
  have rc: "RunCount d = 1"
    using assms(1) by (simp add: single_run_ok_def)
  have deal: "Deal ?d1 (int k) r = Some (run', deck')"
    using assms(4) r by (simp add: Deal_SR)
  show ?thesis
    unfolding Next_def d1 Let_def
    using act rc assms(3) deal r by simp
qed

lemma Next_terminal:
  assumes "RunCount d = 1"
    and "S d = - 1 \<and> R d = - 1 \<and> k = 0 \<or> S d = int k - 1 \<and> R d = 0 \<and> 0 < k"
    and "k = length (Streets (TypeDesc d))"
  shows "Next d = Some (False, d\<lparr>S := int k, R := 0\<rparr>)"
proof -
  let ?d1 = "d\<lparr>S := int k, R := 0\<rparr>"
  have d1: "(if S d = - 1 \<and> R d = - 1 then d\<lparr>S := 0, R := 0\<rparr> else d\<lparr>S := S d + 1\<rparr>) = ?d1"
    using assms(2) by auto
  show ?thesis
    unfolding Next_def d1 Let_def
    using assms(1,3) by simp
qed

lemma Deal_streets_TypeDesc:
  "Deal_streets d xs = Some d' \<Longrightarrow>
   TypeDesc d' = TypeDesc d \<and> S d' = S d \<and> R d' = R d \<and> Count d' = Count d"
  by (induction xs arbitrary: d) (auto split: option.splits if_splits)

lemma Nexts_deal:
  assumes "single_run_ok d0" and "S d0 = - 1" and "R d0 = - 1"
    and "k \<le> length (Streets (TypeDesc d0))"
  shows "\<exists>dd. Deal_streets d0 (map int [0 ..< k]) = Some dd \<and> single_run_ok dd \<and>
           Nexts k d0 = Some (replicate k True,
             if k = 0 then dd else dd\<lparr>S := int k - 1, R := 0\<rparr>)"
  using assms(4)
proof (induction k)
  case 0
  then show ?case using assms(1) by simp
next
  case (Suc k)
  then obtain dd where dd: "Deal_streets d0 (map int [0 ..< k]) = Some dd" "single_run_ok dd"
    "Nexts k d0 = Some (replicate k True, if k = 0 then dd else dd\<lparr>S := int k - 1, R := 0\<rparr>)"
    by auto
  let ?dk = "if k = 0 then dd else dd\<lparr>S := int k - 1, R := 0\<rparr>"
  from Deal_streets_TypeDesc [OF dd(1)] assms(2,3)
  have same: "TypeDesc dd = TypeDesc d0" "S dd = - 1" "R dd = - 1" by simp_all
  have lt: "int k < int (length (Streets (TypeDesc dd)))"
    using Suc.prems same(1) by simp
  from Deal_streets_step [OF dd(2) _ lt] obtain run' deck' where
    st: "Deal dd (int k) (Runs dd ! 0) = Some (run', deck')"
        "Deal_streets dd [int k] = Some (dd\<lparr>Deck := deck', Runs := [run']\<rparr>)"
        "single_run_ok (dd\<lparr>Deck := deck', Runs := [run']\<rparr>)"
    by auto
  let ?dd' = "dd\<lparr>Deck := deck', Runs := [run']\<rparr>"
  have ok: "single_run_ok ?dk"
    using dd(2) by (simp add: single_run_ok_def)
  have sr: "S ?dk = - 1 \<and> R ?dk = - 1 \<and> k = 0 \<or> S ?dk = int k - 1 \<and> R ?dk = 0 \<and> 0 < k"
    using same(2,3) by simp
  have lt': "k < length (Streets (TypeDesc ?dk))"
    using lt by auto
  have deal: "Deal ?dk (int k) (Runs ?dk ! 0) = Some (run', deck')"
    using st(1) by (cases "k = 0") (simp_all add: Deal_SR)
  have nx: "Next ?dk = Some (True, ?dd'\<lparr>S := int k, R := 0\<rparr>)"
    using Next_deals [OF ok sr lt' deal] by (cases "k = 0") simp_all
  have "Deal_streets d0 (map int [0 ..< Suc k]) = Some ?dd'"
    using dd(1) st(2) by (simp add: Deal_streets_snoc)
  moreover have "Nexts (Suc k) d0 =
      Some (replicate (Suc k) True, ?dd'\<lparr>S := int (Suc k) - 1, R := 0\<rparr>)"
    using dd(3) nx by (simp add: replicate_append_same)
  ultimately show ?case
    using st(3) by simp
qed

lemma keys_fold_update:
  "Mapping.keys (fold (\<lambda>i m. Mapping.update i True m) xs m) = set xs \<union> Mapping.keys m"
  by (induction xs arbitrary: m) auto

lemma size_positions:
  "Mapping.size (fold (\<lambda>i m. Mapping.update i True m) (map int [0 ..< c]) Mapping.empty) = c"
proof -
  have "card (int ` {0 ..< c}) = c"
    by (simp add: card_image)
  then show ?thesis
    by (simp add: Mapping.size_def keys_fold_update)
qed

lemma NewDealer_ok:
  assumes "NewDealer desc deck count = Some d0" and "deck_ok deck"
    and "2 \<le> count \<or> Type_Max (Type desc) = 1"
  shows "single_run_ok d0 \<and> S d0 = - 1 \<and> R d0 = - 1 \<and> TypeDesc d0 = desc \<and>
         Deck d0 = deck \<and> Runs d0 = [\<lparr>Discard = [], Pockets = replicate (nat count) [],
                                       Hi = [], Lo = []\<rparr>]"
proof -
  from assms(1) have c: "0 \<le> count"
    by (auto simp: NewDealer_def init_def NewRun_def split: if_splits)
  with assms(1) have d0: "d0 = \<lparr>TypeDesc = desc, Deck = deck, Count = count,
      Active = fold (\<lambda>i m. Mapping.update i True m) (map int [0 ..< nat count]) Mapping.empty,
      Runs = [\<lparr>Discard = [], Pockets = replicate (nat count) [], Hi = [], Lo = []\<rparr>],
      Results = None, RunCount = 1, ST = - 1, S = - 1, R = - 1, E = - 1\<rparr>"
    by (simp add: NewDealer_def init_def NewRun_def positions_def)
  show ?thesis
    unfolding d0 single_run_ok_def using assms(2,3) c
    by (auto simp: size_positions)
qed

text \<open>
  Claim C1, as amended.  For a dealer made by \<^verbatim>\<open>NewDealer\<close> over a deck within its bounds,
  with at least two positions (or a variant whose \<^verbatim>\<open>Type.Max()\<close> is 1), a single run and
  no position deactivated: the first \<open>k\<close> calls of \<^verbatim>\<open>Next\<close>, for every \<open>k\<close> up to the number
  of streets, all return true and leave the deck and the run exactly as dealing the
  streets \<open>0, ..., k - 1\<close> in this order, each by one call of \<^verbatim>\<open>Deal\<close>, leaves them; the
  call after the last street returns false and changes neither the deck nor the run.
\<close>

theorem Next_deals_every_street_once:
  assumes "NewDealer desc deck count = Some d0"
    and "0 \<le> I deck" and "L deck \<le> int (length (V deck))"
    and "2 \<le> count \<or> Type_Max (Type desc) = 1"
    and "k \<le> length (Streets desc)"
  shows "\<exists>d dd. Nexts k d0 = Some (replicate k True, d) \<and>
           Deal_streets d0 (map int [0 ..< k]) = Some dd \<and>
           Deck d = Deck dd \<and> Runs d = Runs dd \<and> length (Runs d) = 1 \<and>
           (k = length (Streets desc) \<longrightarrow>
              (\<exists>d'. Next d = Some (False, d') \<and> Deck d' = Deck d \<and> Runs d' = Runs d))"
proof -
  have "deck_ok deck"
    using assms(2,3) by (simp add: deck_ok_def)
  from NewDealer_ok [OF assms(1) this assms(4)]
  have d0: "single_run_ok d0" "S d0 = - 1" "R d0 = - 1" "TypeDesc d0 = desc" by simp_all
  from Nexts_deal [OF d0(1-3), of k] assms(5) d0(4) obtain dd where
    dd: "Deal_streets d0 (map int [0 ..< k]) = Some dd" "single_run_ok dd"
        "Nexts k d0 = Some (replicate k True, if k = 0 then dd else dd\<lparr>S := int k - 1, R := 0\<rparr>)"
    by auto
  let ?d = "if k = 0 then dd else dd\<lparr>S := int k - 1, R := 0\<rparr>"
  from Deal_streets_TypeDesc [OF dd(1)] d0
  have same: "TypeDesc dd = desc" "S dd = - 1" "R dd = - 1" by simp_all
  have a: "Deck ?d = Deck dd \<and> Runs ?d = Runs dd \<and> length (Runs ?d) = 1"
    using dd(2) by (simp add: single_run_ok_def)
  have "\<exists>d'. Next ?d = Some (False, d') \<and> Deck d' = Deck ?d \<and> Runs d' = Runs ?d"
    if k: "k = length (Streets desc)"
  proof -
    have rc: "RunCount ?d = 1"
      using dd(2) by (simp add: single_run_ok_def)
    have sr: "S ?d = - 1 \<and> R ?d = - 1 \<and> k = 0 \<or> S ?d = int k - 1 \<and> R ?d = 0 \<and> 0 < k"
      using same(2,3) by simp
    have "k = length (Streets (TypeDesc ?d))"
      using k same(1) by simp
    from Next_terminal [OF rc sr this] show ?thesis
      by simp
  qed
  then show ?thesis
    using dd(1,3) a by blast
qed

theorem Next_deals_every_street_once_witness:
  "NewDealer sample_desc sample_deck 2 = Some (sample_new 2) \<and>
   0 \<le> I sample_deck \<and> L sample_deck \<le> int (length (V sample_deck)) \<and>
   length (Streets sample_desc) = 3 \<and>
   Nexts 3 (sample_new 2) = Some ([True, True, True], sample_turn) \<and>
   Deal_streets (sample_new 2) [0, 1, 2] = Some (sample_turn\<lparr>S := - 1, R := - 1\<rparr>) \<and>
   Next sample_turn = Some (False, sample_turn\<lparr>S := 3\<rparr>)"
proof -
  have a: "NewDealer sample_desc sample_deck 2 = Some (sample_new 2)"
    by code_simp
  have b: "0 \<le> I sample_deck" "L sample_deck \<le> int (length (V sample_deck))"
    by (simp_all add: sample_deck_def DeckOf_def)
  have c: "(2::int) \<le> 2 \<or> Type_Max (Type sample_desc) = 1"
    by simp
  have n: "length (Streets sample_desc) = 3"
    by (simp add: sample_desc_def)
  from Next_deals_every_street_once [OF a b c, of 3] n obtain d dd d' where
    r: "Nexts 3 (sample_new 2) = Some (replicate 3 True, d)"
       "Deal_streets (sample_new 2) (map int [0 ..< 3]) = Some dd"
       "Next d = Some (False, d')" "Deck d' = Deck d" "Runs d' = Runs d"
    by auto
  have e: "Nexts 3 (sample_new 2) = Some ([True, True, True], sample_turn)"
    by code_simp
  have f: "Deal_streets (sample_new 2) [0, 1, 2] = Some (sample_turn\<lparr>S := - 1, R := - 1\<rparr>)"
    by code_simp
  have g: "Next sample_turn = Some (False, sample_turn\<lparr>S := 3\<rparr>)"
    using r(1,3) e by code_simp
  show ?thesis
    using a b n e f g by simp
qed

text \<open>
  Claim C1 as stated fails for a dealer with a single position: the first call of
  \<^verbatim>\<open>Next\<close> returns false and deals nothing, though the variant has three streets.
  And over a deck whose limit was set beyond its cards the first call panics while it
  deals the pockets.
\<close>

theorem Next_counterexample:
  "NewDealer sample_desc sample_deck 1 = Some (sample_new 1) \<and>
   length (Streets sample_desc) = 3 \<and>
   Next (sample_new 1) = Some (False, (sample_new 1)\<lparr>S := 0, R := 0\<rparr>) \<and>
   NewDealer sample_desc (Limit (DeckOf [New 2 0]) 5) 2 =
     Some ((sample_new 2)\<lparr>Deck := \<lparr>I = 0, L = 5, V = [New 2 0]\<rparr>\<rparr>) \<and>
   Next ((sample_new 2)\<lparr>Deck := \<lparr>I = 0, L = 5, V = [New 2 0]\<rparr>\<rparr>) = None"
  by code_simp

section \<open>The storage of a duplicated run\<close>

lemma take_eq_prefix: "take (length xs) ys = xs \<longleftrightarrow> (\<exists>zs. ys = xs @ zs)"
proof
  assume "take (length xs) ys = xs"
  then have "ys = xs @ drop (length xs) ys"
    by (metis append_take_drop_id)
  then show "\<exists>zs. ys = xs @ zs" ..
next
  assume "\<exists>zs. ys = xs @ zs"
  then show "take (length xs) ys = xs" by auto
qed

lemma extends_iff:
  "extends st st' \<longleftrightarrow>
     (\<exists>cs rs. card_arrays st' = card_arrays st @ cs \<and> row_arrays st' = row_arrays st @ rs)"
  unfolding extends_def take_eq_prefix by blast

lemma extends_refl: "extends st st"
  by (simp add: extends_def)

lemma extends_trans: "extends st st1 \<Longrightarrow> extends st1 st2 \<Longrightarrow> extends st st2"
  unfolding extends_iff by auto

lemma extends_length:
  "extends st st' \<Longrightarrow>
     length (card_arrays st) \<le> length (card_arrays st') \<and>
     length (row_arrays st) \<le> length (row_arrays st')"
  unfolding extends_iff by auto

lemma cards_of_length: "wf_cards st s \<Longrightarrow> length (cards_of st s) = len s"
  by (cases s) (auto simp: wf_cards_def cards_of_def len_def)

lemma extends_cards:
  assumes "extends st st'" and "wf_cards st s"
  shows "wf_cards st' s \<and> cards_of st' s = cards_of st s"
proof (cases s)
  case Nil_slice
  then show ?thesis by (simp add: wf_cards_def cards_of_def)
next
  case (Slice a n)
  from assms(1) obtain cs where "card_arrays st' = card_arrays st @ cs"
    unfolding extends_iff by blast
  then show ?thesis
    using assms(2) Slice by (auto simp: wf_cards_def cards_of_def nth_append)
qed

lemma extends_rows:
  assumes "extends st st'" and "wf_rows st s"
  shows "wf_rows st' s \<and> rows_of st' s = rows_of st s \<and>
         map (cards_of st') (rows_of st' s) = map (cards_of st) (rows_of st s)"
proof (cases s)
  case Nil_slice
  then show ?thesis by (simp add: wf_rows_def rows_of_def)
next
  case (Slice a n)
  from assms(1) obtain rs where rs: "row_arrays st' = row_arrays st @ rs"
    unfolding extends_iff by blast
  have a: "a < length (row_arrays st)" "n \<le> length (row_arrays st ! a)"
    and all: "list_all (wf_cards st) (take n (row_arrays st ! a))"
    using assms(2) Slice by (auto simp: wf_rows_def)
  have same: "row_arrays st' ! a = row_arrays st ! a"
    using a(1) rs by (simp add: nth_append)
  have each: "\<forall>x\<in>set (take n (row_arrays st ! a)). wf_cards st' x \<and> cards_of st' x = cards_of st x"
    using all extends_cards [OF assms(1)] by (auto simp: list_all_iff)
  show ?thesis
    using a same each rs Slice by (auto simp: wf_rows_def rows_of_def list_all_iff)
qed

lemma Dupe_cards_eq:
  assumes "wf_cards st s"
  shows "Dupe_cards st s =
           (if s = Nil_slice then (Nil_slice, st)
            else (Slice (length (card_arrays st)) (len s),
                  st\<lparr>card_arrays := card_arrays st @ [cards_of st s]\<rparr>))"
proof (cases s)
  case Nil_slice
  then show ?thesis by (simp add: Dupe_cards_def)
next
  case (Slice a n)
  with assms have a: "a < length (card_arrays st)" "n \<le> length (card_arrays st ! a)"
    by (auto simp: wf_cards_def)
  then show ?thesis
    using Slice
    by (simp add: Dupe_cards_def make_cards_def copy_cards_def len_def cards_of_def
        nth_append min_def)
qed

lemma Dupe_pockets_step:
  assumes "sa < length (row_arrays st)" "da < length (row_arrays st)" "sa \<noteq> da"
    and "n \<le> length (row_arrays st ! sa)" "n \<le> length (row_arrays st ! da)"
    and "list_all (wf_cards st) (take n (row_arrays st ! sa))" and "j < n"
  shows "Dupe_pockets (j # rest) (Slice sa n) (Slice da n) st =
         Dupe_pockets rest (Slice sa n) (Slice da n)
           (st\<lparr>card_arrays := card_arrays st @ [cards_of st (row_arrays st ! sa ! j)],
               row_arrays := (row_arrays st)
                 [da := (row_arrays st ! da)
                    [j := Slice (length (card_arrays st)) (len (row_arrays st ! sa ! j))]]\<rparr>)"
proof -
  let ?s = "row_arrays st ! sa ! j"
  let ?c = "length (card_arrays st)"
  let ?st1 = "st\<lparr>card_arrays := card_arrays st @ [replicate (len ?s) No_card]\<rparr>"
  let ?st2 = "?st1\<lparr>row_arrays := (row_arrays st)
                 [da := (row_arrays st ! da)[j := Slice ?c (len ?s)]]\<rparr>"
  have "j < length (take n (row_arrays st ! sa))"
    using assms(4,7) by simp
  then have "take n (row_arrays st ! sa) ! j \<in> set (take n (row_arrays st ! sa))"
    by (rule nth_mem)
  then have "wf_cards st (take n (row_arrays st ! sa) ! j)"
    using assms(6) by (simp add: list_all_iff)
  then have wf: "wf_cards st ?s"
    using assms(7) by simp
  have src: "rows_of st (Slice sa n) ! j = ?s"
    using assms(7) by (simp add: rows_of_def)
  have mk: "make_cards st (len ?s) = (Slice ?c (len ?s), ?st1)"
    by (simp add: make_cards_def)
  have sr: "set_row ?st1 (Slice da n) j (Slice ?c (len ?s)) = ?st2"
    by (simp add: set_row_def)
  have d2: "rows_of ?st2 (Slice da n) ! j = Slice ?c (len ?s)"
    using assms(2,5,7) by (simp add: rows_of_def)
  have s2: "rows_of ?st2 (Slice sa n) ! j = ?s"
    using assms(1,3,7) by (simp add: rows_of_def)
  have c2: "cards_of ?st2 ?s = cards_of st ?s"
  proof (cases ?s)
    case Nil_slice
    then show ?thesis by (simp add: cards_of_def)
  next
    case (Slice a m)
    then show ?thesis
      using wf by (simp add: cards_of_def wf_cards_def nth_append)
  qed
  have l2: "length (cards_of st ?s) = len ?s"
    using wf by (rule cards_of_length)
  have cp: "copy_cards ?st2 (Slice ?c (len ?s)) ?s =
      st\<lparr>card_arrays := card_arrays st @ [cards_of st ?s],
         row_arrays := (row_arrays st)
           [da := (row_arrays st ! da)[j := Slice ?c (len ?s)]]\<rparr>"
    unfolding copy_cards_def using c2 l2 by (simp add: Let_def)
  show ?thesis
    by (simp only: Dupe_pockets.simps src mk sr d2 s2 cp Let_def prod.case)
qed


lemma Dupe_pockets_closed:
  assumes "sa < length (row_arrays st)" "da < length (row_arrays st)" "sa \<noteq> da"
    and "n \<le> length (row_arrays st ! sa)" "n \<le> length (row_arrays st ! da)"
    and "list_all (wf_cards st) (take n (row_arrays st ! sa))" and "j \<le> n"
  shows "Dupe_pockets [j ..< n] (Slice sa n) (Slice da n) st =
         st\<lparr>card_arrays :=
              card_arrays st @ map (\<lambda>i. cards_of st (row_arrays st ! sa ! i)) [j ..< n],
            row_arrays := (row_arrays st)
              [da := take j (row_arrays st ! da) @
                     map (\<lambda>i. Slice (length (card_arrays st) + (i - j))
                                (len (row_arrays st ! sa ! i))) [j ..< n] @
                     drop n (row_arrays st ! da)]\<rparr>"
  using assms
proof (induction "n - j" arbitrary: j st)
  case 0
  then have "j = n" by simp
  then show ?case by simp
next
  case (Suc m)
  then have lt: "j < n" by arith
  let ?srow = "row_arrays st ! sa"
  let ?drow = "row_arrays st ! da"
  let ?c = "length (card_arrays st)"
  let ?x = "Slice ?c (len (?srow ! j))"
  let ?st3 = "st\<lparr>card_arrays := card_arrays st @ [cards_of st (?srow ! j)],
               row_arrays := (row_arrays st)[da := ?drow[j := ?x]]\<rparr>"
  have wf3: "list_all (wf_cards ?st3) (take n (row_arrays ?st3 ! sa))"
    and c3: "\<forall>i<n. cards_of ?st3 (?srow ! i) = cards_of st (?srow ! i)"
  proof -
    have "\<forall>x\<in>set (take n ?srow). wf_cards ?st3 x \<and> cards_of ?st3 x = cards_of st x"
    proof
      fix x assume "x \<in> set (take n ?srow)"
      then have "wf_cards st x"
        using Suc.prems(6) by (simp add: list_all_iff)
      then show "wf_cards ?st3 x \<and> cards_of ?st3 x = cards_of st x"
        by (cases x) (auto simp: wf_cards_def cards_of_def nth_append)
    qed
    then show "list_all (wf_cards ?st3) (take n (row_arrays ?st3 ! sa))"
      using Suc.prems(1,3) by (simp add: list_all_iff)
    show "\<forall>i<n. cards_of ?st3 (?srow ! i) = cards_of st (?srow ! i)"
    proof (intro allI impI)
      fix i assume "i < n"
      then have "take n ?srow ! i \<in> set (take n ?srow)"
        using Suc.prems(4) by (intro nth_mem) simp
      then show "cards_of ?st3 (?srow ! i) = cards_of st (?srow ! i)"
        using \<open>\<forall>x\<in>set (take n ?srow). wf_cards ?st3 x \<and> cards_of ?st3 x = cards_of st x\<close>
          \<open>i < n\<close> by auto
    qed
  qed
  have m: "m = n - Suc j" using Suc.hyps(2) by simp
  have pre: "sa < length (row_arrays ?st3)" "da < length (row_arrays ?st3)"
    "n \<le> length (row_arrays ?st3 ! sa)" "n \<le> length (row_arrays ?st3 ! da)" "Suc j \<le> n"
    using Suc.prems lt by simp_all
  have s3: "row_arrays ?st3 ! sa = ?srow" "row_arrays ?st3 ! da = ?drow[j := ?x]"
    using Suc.prems(1-3) by simp_all
  have "Dupe_pockets [j ..< n] (Slice sa n) (Slice da n) st =
        Dupe_pockets [Suc j ..< n] (Slice sa n) (Slice da n) ?st3"
    using Dupe_pockets_step [OF Suc.prems(1-6) lt] lt by (simp add: upt_conv_Cons)
  also have "\<dots> = ?st3\<lparr>card_arrays :=
              card_arrays ?st3 @ map (\<lambda>i. cards_of ?st3 (row_arrays ?st3 ! sa ! i)) [Suc j ..< n],
            row_arrays := (row_arrays ?st3)
              [da := take (Suc j) (row_arrays ?st3 ! da) @
                     map (\<lambda>i. Slice (length (card_arrays ?st3) + (i - Suc j))
                                (len (row_arrays ?st3 ! sa ! i))) [Suc j ..< n] @
                     drop n (row_arrays ?st3 ! da)]\<rparr>"
    by (rule Suc.hyps(1) [OF m pre(1,2) Suc.prems(3) pre(3,4) wf3 pre(5)])
  finally have eq: "Dupe_pockets [j ..< n] (Slice sa n) (Slice da n) st =
      ?st3\<lparr>card_arrays :=
              card_arrays ?st3 @ map (\<lambda>i. cards_of ?st3 (?srow ! i)) [Suc j ..< n],
            row_arrays := (row_arrays ?st3)
              [da := take (Suc j) (?drow[j := ?x]) @
                     map (\<lambda>i. Slice (length (card_arrays ?st3) + (i - Suc j))
                                (len (?srow ! i))) [Suc j ..< n] @
                     drop n (?drow[j := ?x])]\<rparr>"
    unfolding s3 .
  have m1: "map (\<lambda>i. cards_of ?st3 (?srow ! i)) [Suc j ..< n] =
            map (\<lambda>i. cards_of st (?srow ! i)) [Suc j ..< n]"
    using c3 by simp
  have m2: "map (\<lambda>i. Slice (length (card_arrays ?st3) + (i - Suc j)) (len (?srow ! i)))
              [Suc j ..< n] =
            map (\<lambda>i. Slice (?c + (i - j)) (len (?srow ! i))) [Suc j ..< n]"
    by (rule map_cong) auto
  have jl: "j < length ?drow"
    using lt Suc.prems(5) by simp
  have t: "take (Suc j) (?drow[j := ?x]) = take j ?drow @ [?x]"
    using jl by (simp add: take_Suc_conv_app_nth)
  have d: "drop n (?drow[j := ?x]) = drop n ?drow"
    using lt by simp
  have u: "[j ..< n] = j # [Suc j ..< n]"
    using lt by (simp add: upt_conv_Cons)
  have fin: "?st3\<lparr>card_arrays :=
              card_arrays ?st3 @ map (\<lambda>i. cards_of ?st3 (?srow ! i)) [Suc j ..< n],
            row_arrays := (row_arrays ?st3)
              [da := take (Suc j) (?drow[j := ?x]) @
                     map (\<lambda>i. Slice (length (card_arrays ?st3) + (i - Suc j))
                                (len (?srow ! i))) [Suc j ..< n] @
                     drop n (?drow[j := ?x])]\<rparr> =
         st\<lparr>card_arrays :=
              card_arrays st @ map (\<lambda>i. cards_of st (?srow ! i)) [j ..< n],
            row_arrays := (row_arrays st)
              [da := take j ?drow @
                     map (\<lambda>i. Slice (?c + (i - j)) (len (?srow ! i))) [j ..< n] @
                     drop n ?drow]\<rparr>"
    unfolding m1 m2 t d u by simp
  show ?case
    by (rule trans [OF eq fin])
qed


lemma map_nth_take: "n \<le> length xs \<Longrightarrow> map (\<lambda>i. f (xs ! i)) [0 ..< n] = map f (take n xs)"
  by (rule nth_equalityI) auto

lemma Dupe_rows_eq:
  assumes "wf_rows st (Slice sa n)"
  shows "Dupe_rows st (Slice sa n) =
           (Slice (length (row_arrays st)) n,
            st\<lparr>card_arrays := card_arrays st @ map (cards_of st) (take n (row_arrays st ! sa)),
               row_arrays := row_arrays st @
                 [map (\<lambda>i. Slice (length (card_arrays st) + i) (len (row_arrays st ! sa ! i)))
                    [0 ..< n]]\<rparr>)"
proof -
  let ?r0 = "length (row_arrays st)"
  let ?st0 = "st\<lparr>row_arrays := row_arrays st @ [replicate n Nil_slice]\<rparr>"
  from assms have a: "sa < ?r0" "n \<le> length (row_arrays st ! sa)"
    "list_all (wf_cards st) (take n (row_arrays st ! sa))"
    by (auto simp: wf_rows_def)
  have wf0: "wf_cards ?st0 = wf_cards st"
    by (intro ext) (simp add: wf_cards_def cong: slice.case_cong)
  have c0: "cards_of ?st0 = cards_of st"
    by (intro ext) (simp add: cards_of_def cong: slice.case_cong)
  have p: "sa < length (row_arrays ?st0)" "?r0 < length (row_arrays ?st0)" "sa \<noteq> ?r0"
    "n \<le> length (row_arrays ?st0 ! sa)" "n \<le> length (row_arrays ?st0 ! ?r0)"
    "list_all (wf_cards ?st0) (take n (row_arrays ?st0 ! sa))" "0 \<le> n"
    using a by (simp_all add: nth_append wf0)
  have s0: "row_arrays ?st0 ! sa = row_arrays st ! sa"
    using a(1) by (simp add: nth_append)
  have "Dupe_pockets [0 ..< n] (Slice sa n) (Slice ?r0 n) ?st0 =
      st\<lparr>card_arrays := card_arrays st @ map (cards_of st) (take n (row_arrays st ! sa)),
         row_arrays := row_arrays st @
           [map (\<lambda>i. Slice (length (card_arrays st) + i) (len (row_arrays st ! sa ! i)))
              [0 ..< n]]\<rparr>"
    unfolding Dupe_pockets_closed [OF p] s0 c0
    using a(2) by (simp add: map_nth_take)
  then show ?thesis
    by (simp add: Dupe_rows_def make_rows_def len_def)
qed

lemma Dupe_cards_spec:
  assumes "wf_cards st s" and "Dupe_cards st s = (t, st')"
  shows "extends st st' \<and> wf_cards st' t \<and> cards_of st' t = cards_of st s \<and>
         addr_of t \<subseteq> {length (card_arrays st) ..< length (card_arrays st')}"
proof (cases s)
  case Nil_slice
  with assms(2) have "t = Nil_slice" "st' = st"
    by (simp_all add: Dupe_cards_def)
  then show ?thesis
    using Nil_slice by (simp add: extends_refl wf_cards_def cards_of_def addr_of_def)
next
  case (Slice a n)
  with assms have t: "t = Slice (length (card_arrays st)) (len s)"
    and st': "st' = st\<lparr>card_arrays := card_arrays st @ [cards_of st s]\<rparr>"
    by (simp_all add: Dupe_cards_eq)
  have "extends st st'"
    unfolding extends_iff st' by simp
  moreover have "wf_cards st' t \<and> cards_of st' t = cards_of st s"
    unfolding t st' using cards_of_length [OF assms(1)]
    by (simp add: wf_cards_def cards_of_def)
  moreover have "addr_of t \<subseteq> {length (card_arrays st) ..< length (card_arrays st')}"
    unfolding t st' by (simp add: addr_of_def)
  ultimately show ?thesis by simp
qed

lemma Dupe_rows_spec:
  assumes "wf_rows st s" and "Dupe_rows st s = (p, st')"
  shows "extends st st' \<and> wf_rows st' p \<and>
         map (cards_of st') (rows_of st' p) = map (cards_of st) (rows_of st s) \<and>
         addr_of p \<subseteq> {length (row_arrays st) ..< length (row_arrays st')} \<and>
         \<Union> (set (map addr_of (rows_of st' p))) \<subseteq>
           {length (card_arrays st) ..< length (card_arrays st')}"
proof (cases s)
  case Nil_slice
  with assms(2) have "p = Nil_slice" "st' = st"
    by (simp_all add: Dupe_rows_def)
  then show ?thesis
    using Nil_slice by (simp add: extends_refl wf_rows_def rows_of_def addr_of_def)
next
  case (Slice sa n)
  let ?c0 = "length (card_arrays st)"
  let ?srow = "row_arrays st ! sa"
  let ?new = "map (\<lambda>i. Slice (?c0 + i) (len (?srow ! i))) [0 ..< n]"
  from assms Slice have p: "p = Slice (length (row_arrays st)) n"
    and st': "st' = st\<lparr>card_arrays := card_arrays st @ map (cards_of st) (take n ?srow),
                       row_arrays := row_arrays st @ [?new]\<rparr>"
    by (simp_all add: Dupe_rows_eq)
  from assms(1) Slice have a: "sa < length (row_arrays st)" "n \<le> length ?srow"
    "list_all (wf_cards st) (take n ?srow)"
    by (auto simp: wf_rows_def)
  have rows: "rows_of st' p = ?new"
    unfolding p st' by (simp add: rows_of_def)
  have len: "\<forall>i<n. length (cards_of st (?srow ! i)) = len (?srow ! i)"
  proof (intro allI impI)
    fix i assume "i < n"
    then have "take n ?srow ! i \<in> set (take n ?srow)"
      using a(2) by (intro nth_mem) simp
    then have "wf_cards st (?srow ! i)"
      using a(3) \<open>i < n\<close> by (auto simp: list_all_iff)
    then show "length (cards_of st (?srow ! i)) = len (?srow ! i)"
      by (rule cards_of_length)
  qed
  have each: "\<forall>i<n. wf_cards st' (?new ! i) \<and> cards_of st' (?new ! i) = cards_of st (?srow ! i)"
    unfolding st' using len a(2)
    by (auto simp: wf_cards_def cards_of_def nth_append)
  have "extends st st'"
    unfolding extends_iff st' by simp
  moreover have "wf_rows st' p"
    unfolding wf_rows_def p using each
    by (auto simp: st' list_all_length)
  moreover have "map (cards_of st') (rows_of st' p) = map (cards_of st) (rows_of st s)"
    unfolding rows using each a(2) Slice
    by (intro nth_equalityI) (auto simp: rows_of_def)
  moreover have "addr_of p \<subseteq> {length (row_arrays st) ..< length (row_arrays st')}"
    unfolding p st' by (simp add: addr_of_def)
  moreover have "\<Union> (set (map addr_of (rows_of st' p))) \<subseteq> {?c0 ..< length (card_arrays st')}"
  proof -
    have lc: "length (card_arrays st') = ?c0 + n"
      unfolding st' using a(2) by simp
    have "\<Union> (set (map addr_of ?new)) \<subseteq> {?c0 ..< ?c0 + n}"
      by (auto simp: addr_of_def)
    then show ?thesis
      by (simp only: rows lc)
  qed
  ultimately show ?thesis by simp
qed


lemma cards_of_write_cards:
  "a \<notin> addr_of s \<Longrightarrow> cards_of (write_cards st a v) s = cards_of st s"
  by (cases s) (auto simp: cards_of_def write_cards_def addr_of_def)

lemma rows_of_write_cards: "rows_of (write_cards st a v) s = rows_of st s"
  by (cases s) (auto simp: rows_of_def write_cards_def)

lemma cards_of_write_rows: "cards_of (write_rows st a v) s = cards_of st s"
  by (cases s) (auto simp: cards_of_def write_rows_def)

lemma rows_of_write_rows:
  "a \<notin> addr_of s \<Longrightarrow> rows_of (write_rows st a v) s = rows_of st s"
  by (cases s) (auto simp: rows_of_def write_rows_def addr_of_def)

lemma content_write_cards:
  assumes "a \<notin> card_addrs st r"
  shows "content (write_cards st a v) r = content st r"
proof -
  have "\<forall>x\<in>set (rows_of st (Pockets_h r)). a \<notin> addr_of x"
    using assms by (auto simp: card_addrs_def)
  then have "map (cards_of (write_cards st a v)) (rows_of st (Pockets_h r)) =
             map (cards_of st) (rows_of st (Pockets_h r))"
    by (simp add: cards_of_write_cards)
  moreover have "a \<notin> addr_of (Discard_h r)" "a \<notin> addr_of (Hi_h r)" "a \<notin> addr_of (Lo_h r)"
    using assms by (auto simp: card_addrs_def)
  ultimately show ?thesis
    by (simp add: content_def cards_of_write_cards rows_of_write_cards)
qed

lemma content_write_rows:
  assumes "a \<notin> row_addrs r"
  shows "content (write_rows st a v) r = content st r"
proof -
  have "cards_of (write_rows st a v) = cards_of st"
    by (intro ext) (rule cards_of_write_rows)
  then show ?thesis
    using assms by (simp add: content_def rows_of_write_rows row_addrs_def)
qed

lemma wf_cards_addr: "wf_cards st s \<Longrightarrow> addr_of s \<subseteq> {..< length (card_arrays st)}"
  by (cases s) (auto simp: wf_cards_def addr_of_def)

lemma wf_run_addrs:
  assumes "wf_run st r"
  shows "card_addrs st r \<subseteq> {..< length (card_arrays st)} \<and>
         row_addrs r \<subseteq> {..< length (row_arrays st)}"
proof -
  have "\<Union> (set (map addr_of (rows_of st (Pockets_h r)))) \<subseteq> {..< length (card_arrays st)}"
  proof (cases "Pockets_h r")
    case Nil_slice
    then show ?thesis by (simp add: rows_of_def)
  next
    case (Slice a n)
    with assms have "\<forall>x\<in>set (rows_of st (Pockets_h r)). wf_cards st x"
      by (simp add: wf_run_def wf_rows_def rows_of_def list_all_iff)
    then show ?thesis
      using wf_cards_addr by fastforce
  qed
  moreover have "row_addrs r \<subseteq> {..< length (row_arrays st)}"
    using assms by (cases "Pockets_h r") (auto simp: wf_run_def wf_rows_def row_addrs_def addr_of_def)
  ultimately show ?thesis
    using assms wf_cards_addr [of st "Discard_h r"] wf_cards_addr [of st "Hi_h r"]
      wf_cards_addr [of st "Lo_h r"]
    by (simp add: card_addrs_def wf_run_def)
qed

lemma cards_of_Nil: "cards_of st Nil_slice = []"
  by (simp add: cards_of_def)

lemma extends_run:
  assumes "extends st st'" and "wf_run st r"
  shows "wf_run st' r \<and> content st' r = content st r \<and> card_addrs st' r = card_addrs st r"
proof -
  from assms(2) have wf: "wf_cards st (Discard_h r)" "wf_rows st (Pockets_h r)"
    "wf_cards st (Hi_h r)" "wf_cards st (Lo_h r)"
    by (simp_all add: wf_run_def)
  from extends_cards [OF assms(1) wf(1)] have d: "wf_cards st' (Discard_h r)"
    "cards_of st' (Discard_h r) = cards_of st (Discard_h r)" by blast+
  from extends_cards [OF assms(1) wf(3)] have h: "wf_cards st' (Hi_h r)"
    "cards_of st' (Hi_h r) = cards_of st (Hi_h r)" by blast+
  from extends_cards [OF assms(1) wf(4)] have l: "wf_cards st' (Lo_h r)"
    "cards_of st' (Lo_h r) = cards_of st (Lo_h r)" by blast+
  from extends_rows [OF assms(1) wf(2)] have p: "wf_rows st' (Pockets_h r)"
    "rows_of st' (Pockets_h r) = rows_of st (Pockets_h r)"
    "map (cards_of st') (rows_of st' (Pockets_h r)) = map (cards_of st) (rows_of st (Pockets_h r))"
    by blast+
  have "wf_run st' r"
    unfolding wf_run_def using d(1) h(1) l(1) p(1) by blast
  moreover have "content st' r = content st r"
    unfolding content_def by (simp only: d(2) h(2) l(2) p(3))
  moreover have "card_addrs st' r = card_addrs st r"
    unfolding card_addrs_def by (simp only: p(2))
  ultimately show ?thesis by blast
qed

lemma Dupe_content: "Dupe v = v\<lparr>Discard := []\<rparr>"
  by (simp add: Dupe_def map_nth)

lemma Dupe_h_phases:
  assumes "wf_run st run" and "Dupe_h st run = (r, st')"
  shows "extends st st' \<and> wf_run st' r \<and> content st' r = Dupe (content st run) \<and>
         card_addrs st' r \<subseteq> {length (card_arrays st) ..< length (card_arrays st')} \<and>
         row_addrs r \<subseteq> {length (row_arrays st) ..< length (row_arrays st')}"
proof -
  obtain p st1 where p: "Dupe_rows st (Pockets_h run) = (p, st1)"
    by (cases "Dupe_rows st (Pockets_h run)")
  obtain h st2 where h: "Dupe_cards st1 (Hi_h run) = (h, st2)"
    by (cases "Dupe_cards st1 (Hi_h run)")
  obtain l st3 where l: "Dupe_cards st2 (Lo_h run) = (l, st3)"
    by (cases "Dupe_cards st2 (Lo_h run)")
  from assms(2) have r: "r = \<lparr>Discard_h = Nil_slice, Pockets_h = p, Hi_h = h, Lo_h = l\<rparr>"
    and st': "st' = st3"
    by (simp_all add: Dupe_h_def p h l)
  from assms(1) have wf: "wf_rows st (Pockets_h run)" "wf_cards st (Hi_h run)"
    "wf_cards st (Lo_h run)"
    by (simp_all add: wf_run_def)
  from Dupe_rows_spec [OF wf(1) p] have
    e1: "extends st st1" and wp: "wf_rows st1 p"
    and cp: "map (cards_of st1) (rows_of st1 p) = map (cards_of st) (rows_of st (Pockets_h run))"
    and ap: "addr_of p \<subseteq> {length (row_arrays st) ..< length (row_arrays st1)}"
    and bp: "\<Union> (set (map addr_of (rows_of st1 p))) \<subseteq>
              {length (card_arrays st) ..< length (card_arrays st1)}"
    by blast+
  from extends_cards [OF e1 wf(2)] have wh1: "wf_cards st1 (Hi_h run)"
    and ch1: "cards_of st1 (Hi_h run) = cards_of st (Hi_h run)" by simp_all
  from Dupe_cards_spec [OF wh1 h] have
    e2: "extends st1 st2" and wh: "wf_cards st2 h"
    and ch: "cards_of st2 h = cards_of st1 (Hi_h run)"
    and ah: "addr_of h \<subseteq> {length (card_arrays st1) ..< length (card_arrays st2)}"
    by simp_all
  have e02: "extends st st2"
    using e1 e2 by (rule extends_trans)
  from extends_cards [OF e02 wf(3)] have wl2: "wf_cards st2 (Lo_h run)"
    and cl2: "cards_of st2 (Lo_h run) = cards_of st (Lo_h run)" by simp_all
  from Dupe_cards_spec [OF wl2 l] have
    e3: "extends st2 st3" and wl: "wf_cards st3 l"
    and cl: "cards_of st3 l = cards_of st2 (Lo_h run)"
    and al: "addr_of l \<subseteq> {length (card_arrays st2) ..< length (card_arrays st3)}"
    by simp_all
  have e13: "extends st1 st3"
    using e2 e3 by (rule extends_trans)
  have e03: "extends st st3"
    using e1 e13 by (rule extends_trans)
  from extends_rows [OF e13 wp] have wp3: "wf_rows st3 p"
    and rp3: "rows_of st3 p = rows_of st1 p"
    and cp3: "map (cards_of st3) (rows_of st3 p) = map (cards_of st1) (rows_of st1 p)"
    by blast+
  from extends_cards [OF e3 wh] have wh3: "wf_cards st3 h"
    and ch3: "cards_of st3 h = cards_of st2 h" by simp_all
  from extends_length [OF e1] extends_length [OF e2] extends_length [OF e3]
  have mono: "length (card_arrays st) \<le> length (card_arrays st1)"
    "length (card_arrays st1) \<le> length (card_arrays st2)"
    "length (card_arrays st2) \<le> length (card_arrays st3)"
    "length (row_arrays st1) \<le> length (row_arrays st3)"
    by simp_all
  have "wf_run st3 r"
    unfolding r wf_run_def using wp3 wh3 wl by (simp add: wf_cards_def)
  moreover have "content st3 r = Dupe (content st run)"
    unfolding r Dupe_content
    by (simp add: content_def cp3 cp ch3 ch ch1 cl cl2 cards_of_Nil del: map_eq_conv)
  moreover have "card_addrs st3 r \<subseteq> {length (card_arrays st) ..< length (card_arrays st3)}"
  proof -
    have "addr_of h \<subseteq> {length (card_arrays st) ..< length (card_arrays st3)}"
      using ah mono by auto
    moreover have "addr_of l \<subseteq> {length (card_arrays st) ..< length (card_arrays st3)}"
      using al mono by auto
    moreover have "\<Union> (set (map addr_of (rows_of st3 p))) \<subseteq>
        {length (card_arrays st) ..< length (card_arrays st3)}"
      unfolding rp3 using bp mono by fastforce
    ultimately show ?thesis
      unfolding r card_addrs_def by (simp add: addr_of_def)
  qed
  moreover have "row_addrs r \<subseteq> {length (row_arrays st) ..< length (row_arrays st3)}"
    unfolding r row_addrs_def using ap mono by auto
  ultimately show ?thesis
    using e03 st' by simp
qed

text \<open>
  Claim C3, as amended.  For a run whose slices are well formed in the store, \<^verbatim>\<open>Dupe\<close>
  returns a run whose pockets, high board and low board are equal by content to the
  original's and whose discard pile is empty; the original is left as it was.  The
  copy's arrays are fresh: no array is reached from both runs, so overwriting any array
  that one of the two runs reaches leaves the contents of the other unchanged.
\<close>

theorem Dupe_h_independent:
  assumes "wf_run st run" and "Dupe_h st run = (r, st')"
  shows "Pockets (content st' r) = Pockets (content st run) \<and>
         Hi (content st' r) = Hi (content st run) \<and>
         Lo (content st' r) = Lo (content st run) \<and>
         Discard (content st' r) = [] \<and>
         content st' r = Dupe (content st run) \<and>
         content st' run = content st run \<and>
         wf_run st' r \<and>
         card_addrs st' r \<inter> card_addrs st' run = {} \<and>
         row_addrs r \<inter> row_addrs run = {} \<and>
         (\<forall>a v. a \<in> card_addrs st' run \<longrightarrow> content (write_cards st' a v) r = content st' r) \<and>
         (\<forall>a v. a \<in> card_addrs st' r \<longrightarrow> content (write_cards st' a v) run = content st' run) \<and>
         (\<forall>a v. a \<in> row_addrs run \<longrightarrow> content (write_rows st' a v) r = content st' r) \<and>
         (\<forall>a v. a \<in> row_addrs r \<longrightarrow> content (write_rows st' a v) run = content st' run)"
proof -
  from Dupe_h_phases [OF assms] have
    e: "extends st st'" and w: "wf_run st' r" and c: "content st' r = Dupe (content st run)"
    and ca: "card_addrs st' r \<subseteq> {length (card_arrays st) ..< length (card_arrays st')}"
    and ra: "row_addrs r \<subseteq> {length (row_arrays st) ..< length (row_arrays st')}"
    by simp_all
  from extends_run [OF e assms(1)] have
    c0: "content st' run = content st run" and a0: "card_addrs st' run = card_addrs st run"
    by simp_all
  from wf_run_addrs [OF assms(1)] have
    old: "card_addrs st run \<subseteq> {..< length (card_arrays st)}"
         "row_addrs run \<subseteq> {..< length (row_arrays st)}"
    by simp_all
  have d1: "card_addrs st' r \<inter> card_addrs st' run = {}"
    unfolding a0 using ca old(1) by fastforce
  have d2: "row_addrs r \<inter> row_addrs run = {}"
    using ra old(2) by fastforce
  have f1: "\<forall>a v. a \<in> card_addrs st' run \<longrightarrow> content (write_cards st' a v) r = content st' r"
    using d1 by (intro allI impI content_write_cards) blast
  have f2: "\<forall>a v. a \<in> card_addrs st' r \<longrightarrow> content (write_cards st' a v) run = content st' run"
    using d1 by (intro allI impI content_write_cards) blast
  have f3: "\<forall>a v. a \<in> row_addrs run \<longrightarrow> content (write_rows st' a v) r = content st' r"
    using d2 by (intro allI impI content_write_rows) blast
  have f4: "\<forall>a v. a \<in> row_addrs r \<longrightarrow> content (write_rows st' a v) run = content st' run"
    using d2 by (intro allI impI content_write_rows) blast
  have parts: "Pockets (content st' r) = Pockets (content st run) \<and>
         Hi (content st' r) = Hi (content st run) \<and>
         Lo (content st' r) = Lo (content st run) \<and>
         Discard (content st' r) = []"
    unfolding c Dupe_content by simp
  show ?thesis
    using parts c c0 w d1 d2 f1 f2 f3 f4 by blast
qed

theorem Dupe_h_independent_witness:
  "wf_run sample_store sample_run_h \<and>
   Dupe_h sample_store sample_run_h = (sample_copy_h, sample_store_dupe) \<and>
   content sample_store sample_run_h =
     \<lparr>Discard = [New 4 0], Pockets = [[New 2 0], [New 3 0]], Hi = [New 5 0, New 6 0],
      Lo = []\<rparr> \<and>
   content sample_store_dupe sample_copy_h =
     \<lparr>Discard = [], Pockets = [[New 2 0], [New 3 0]], Hi = [New 5 0, New 6 0], Lo = []\<rparr> \<and>
   3 \<in> card_addrs sample_store_dupe sample_run_h \<and>
   Hi (content (write_cards sample_store_dupe 3 [New 14 0, New 13 0]) sample_run_h) =
     [New 14 0, New 13 0] \<and>
   content (write_cards sample_store_dupe 3 [New 14 0, New 13 0]) sample_copy_h =
     content sample_store_dupe sample_copy_h \<and>
   6 \<in> card_addrs sample_store_dupe sample_copy_h \<and>
   content (write_cards sample_store_dupe 6 [New 14 0, New 13 0]) sample_run_h =
     content sample_store_dupe sample_run_h"
proof -
  have a: "wf_run sample_store sample_run_h"
    by code_simp
  have b: "Dupe_h sample_store sample_run_h = (sample_copy_h, sample_store_dupe)"
    by code_simp
  have c: "content sample_store sample_run_h =
     \<lparr>Discard = [New 4 0], Pockets = [[New 2 0], [New 3 0]], Hi = [New 5 0, New 6 0],
      Lo = []\<rparr>"
    by code_simp
  have d: "3 \<in> card_addrs sample_store_dupe sample_run_h"
    "6 \<in> card_addrs sample_store_dupe sample_copy_h"
    by code_simp+
  have e: "Hi (content (write_cards sample_store_dupe 3 [New 14 0, New 13 0]) sample_run_h) =
     [New 14 0, New 13 0]"
    by code_simp
  have f: "Dupe (content sample_store sample_run_h) =
     \<lparr>Discard = [], Pockets = [[New 2 0], [New 3 0]], Hi = [New 5 0, New 6 0], Lo = []\<rparr>"
    unfolding c by code_simp
  from Dupe_h_independent [OF a b] d f show ?thesis
    using a b c e by simp
qed

text \<open>
  Claim C3 as stated fails for the discard pile: \<^verbatim>\<open>Dupe\<close> never assigns \<^verbatim>\<open>r.Discard\<close>, so
  the copy of a run that has burnt a card has an empty discard pile.
\<close>

theorem Dupe_counterexample:
  "wf_run sample_store sample_run_h \<and>
   Discard (content sample_store sample_run_h) = [New 4 0] \<and>
   Dupe_h sample_store sample_run_h = (sample_copy_h, sample_store_dupe) \<and>
   Discard (content sample_store_dupe sample_copy_h) = [] \<and>
   Discard (Dupe (content sample_store sample_run_h)) = []"
  by code_simp

section \<open>Splitting into several runs\<close>

lemma ChangeRuns_loop_fill:
  "1 \<le> j \<Longrightarrow> j \<le> length rs \<Longrightarrow>
   ChangeRuns_loop [j ..< length rs] rs = take j rs @ replicate (length rs - j) (Dupe (rs ! 0))"
proof (induction "length rs - j" arbitrary: j rs)
  case 0
  then show ?case by simp
next
  case (Suc m)
  then have lt: "j < length rs" by arith
  let ?rs = "rs[j := Dupe (rs ! 0)]"
  have len: "length ?rs = length rs" by simp
  have m: "m = length ?rs - Suc j" using Suc.hyps(2) by simp
  have "ChangeRuns_loop [j ..< length rs] rs = ChangeRuns_loop [Suc j ..< length ?rs] ?rs"
    using lt by (simp add: upt_conv_Cons)
  also have "\<dots> = take (Suc j) ?rs @ replicate (length ?rs - Suc j) (Dupe (?rs ! 0))"
    using Suc.hyps(1) [OF m] lt by simp
  also have "?rs ! 0 = rs ! 0"
    using Suc.prems(1) by simp
  also have "take (Suc j) ?rs = take j rs @ [Dupe (rs ! 0)]"
    using lt by (simp add: take_Suc_conv_app_nth)
  finally have "ChangeRuns_loop [j ..< length rs] rs =
      (take j rs @ [Dupe (rs ! 0)]) @ replicate (length rs - Suc j) (Dupe (rs ! 0))"
    by simp
  moreover have "length rs - j = Suc (length rs - Suc j)"
    using lt by arith
  ultimately show ?case
    by simp
qed

lemma ChangeRuns_loop_single:
  "1 \<le> n \<Longrightarrow>
   ChangeRuns_loop [1 ..< n] ([r] @ replicate (n - 1) z) = r # replicate (n - 1) (Dupe r)"
  using ChangeRuns_loop_fill [of 1 "[r] @ replicate (n - 1) z"] by simp

lemma copies_ok_step:
  assumes ok: "copies_ok st c0 rs j" and j: "1 \<le> j" "j < length rs"
    and d: "Dupe_h st (rs ! 0) = (r, st')"
  shows "copies_ok st' c0 (rs[j := r]) (Suc j)"
proof -
  from ok j have wf0: "wf_run st (rs ! 0)" and c0: "content st (rs ! 0) = c0"
    by (auto simp: copies_ok_def)
  from Dupe_h_phases [OF wf0 d] have
    e: "extends st st'" and w: "wf_run st' r" and c: "content st' r = Dupe c0"
    and ca: "card_addrs st' r \<subseteq> {length (card_arrays st) ..< length (card_arrays st')}"
    and ra: "row_addrs r \<subseteq> {length (row_arrays st) ..< length (row_arrays st')}"
    using c0 by simp_all
  have old: "wf_run st' (rs ! i) \<and> content st' (rs ! i) = (if i = 0 then c0 else Dupe c0) \<and>
             card_addrs st' (rs ! i) = card_addrs st (rs ! i) \<and>
             card_addrs st' (rs ! i) \<subseteq> {..< length (card_arrays st)} \<and>
             row_addrs (rs ! i) \<subseteq> {..< length (row_arrays st)}" if "i < j" for i
  proof -
    from ok that have wi: "wf_run st (rs ! i)"
      and ci: "content st (rs ! i) = (if i = 0 then c0 else Dupe c0)"
      by (auto simp: copies_ok_def)
    from extends_run [OF e wi] wf_run_addrs [OF wi] ci show ?thesis
      by simp
  qed
  have new: "apart st' (rs ! i) r" if "i < j" for i
    using old [OF that] ca ra unfolding apart_def by fastforce
  have "wf_run st' (rs[j := r] ! i) \<and>
        content st' (rs[j := r] ! i) = (if i = 0 then c0 else Dupe c0)" if "i < Suc j" for i
  proof (cases "i = j")
    case True
    then show ?thesis using w c j by simp
  next
    case False
    with that have "i < j" by simp
    from old [OF this] False show ?thesis by simp
  qed
  moreover have "apart st' (rs[j := r] ! i) (rs[j := r] ! k)" if "i < k \<and> k < Suc j" for i k
  proof (cases "k = j")
    case True
    with that have "i < j" by simp
    from new [OF this] True that j show ?thesis by simp
  next
    case False
    with that have ik: "i < k" "k < j" "i < j" by simp_all
    from ok ik have "apart st (rs ! i) (rs ! k)"
      by (simp add: copies_ok_def)
    then have "apart st' (rs ! i) (rs ! k)"
      using old [OF ik(2)] old [OF ik(3)] by (simp add: apart_def)
    then show ?thesis
      using ik by simp
  qed
  ultimately show ?thesis
    unfolding copies_ok_def by blast
qed

lemma ChangeRuns_loop_h_fill:
  assumes "copies_ok st c0 rs j" and "1 \<le> j" and "j \<le> length rs"
  shows "\<exists>rs' st'. ChangeRuns_loop_h [j ..< length rs] rs st = (rs', st') \<and>
           length rs' = length rs \<and> copies_ok st' c0 rs' (length rs)"
  using assms
proof (induction "length rs - j" arbitrary: j rs st)
  case 0
  then have "j = length rs" by simp
  then show ?case using "0.prems"(1) by simp
next
  case (Suc m)
  then have lt: "j < length rs" by arith
  obtain r st1 where d: "Dupe_h st (rs ! 0) = (r, st1)"
    by (cases "Dupe_h st (rs ! 0)")
  let ?rs = "rs[j := r]"
  have ok: "copies_ok st1 c0 ?rs (Suc j)"
    using copies_ok_step [OF Suc.prems(1,2) lt d] .
  have m: "m = length ?rs - Suc j"
    using Suc.hyps(2) by simp
  have "1 \<le> Suc j" "Suc j \<le> length ?rs"
    using lt by simp_all
  from Suc.hyps(1) [OF m ok this] obtain rs' st' where
    r: "ChangeRuns_loop_h [Suc j ..< length ?rs] ?rs st1 = (rs', st')"
       "length rs' = length ?rs" "copies_ok st' c0 rs' (length ?rs)"
    by blast
  have "ChangeRuns_loop_h [j ..< length rs] rs st = (rs', st')"
    using lt d r(1) by (simp add: upt_conv_Cons)
  then show ?case
    using r(2,3) by simp
qed

lemma ChangeRuns_loop_h_copies:
  assumes "wf_run st r0" and "1 \<le> n"
  shows "\<exists>rs st'. ChangeRuns_loop_h [1 ..< n] (r0 # replicate (n - 1) nil_slot_h) st = (rs, st') \<and>
           map (content st') rs = content st r0 # replicate (n - 1) (Dupe (content st r0)) \<and>
           (\<forall>i k. i < k \<and> k < n \<longrightarrow> apart st' (rs ! i) (rs ! k))"
proof -
  let ?rs = "r0 # replicate (n - 1) nil_slot_h"
  have len: "length ?rs = n"
    using assms(2) by simp
  have "copies_ok st (content st r0) ?rs 1"
    using assms(1) by (simp add: copies_ok_def)
  from ChangeRuns_loop_h_fill [OF this, unfolded len] assms(2) obtain rs st' where
    r: "ChangeRuns_loop_h [1 ..< n] ?rs st = (rs, st')" "length rs = n"
       "copies_ok st' (content st r0) rs n"
    by auto
  have "map (content st') rs = content st r0 # replicate (n - 1) (Dupe (content st r0))"
    using r(2,3) assms(2)
    by (intro nth_equalityI) (auto simp: copies_ok_def nth_Cons')
  then show ?thesis
    using r(1,3) by (auto simp: copies_ok_def)
qed

text \<open>
  Claim C4, as amended.  \<^verbatim>\<open>ChangeRuns(n)\<close> returns false and leaves the dealer as it is
  unless the run index is 0, \<^verbatim>\<open>RunCount\<close> and the length of \<^verbatim>\<open>Runs\<close> are 1, the street
  index is below the number of streets and \<^verbatim>\<open>HasActive\<close> holds.  When these hold and
  \<open>n\<close> is at least 1 it returns true, appends \<open>n - 1\<close> copies of the sole run as \<^verbatim>\<open>Dupe\<close>
  makes them (pockets and both boards, with an empty discard pile), so that \<^verbatim>\<open>Runs\<close> has
  length \<open>n\<close>, records the street index in \<^verbatim>\<open>ST\<close> and sets \<^verbatim>\<open>RunCount\<close> to \<open>n\<close>.  In the
  store the copies are independent: whatever well-formed storage holds the sole run, the
  loop leaves \<open>n\<close> runs with these contents of which no two reach a common array.
\<close>

theorem ChangeRuns_splits:
  "(\<not> (R d = 0 \<and> RunCount d = 1 \<and> length (Runs d) = 1 \<and>
        S d < int (length (Streets (TypeDesc d))) \<and> HasActive d) \<longrightarrow>
      ChangeRuns d n = Some (False, d)) \<and>
   (R d = 0 \<and> RunCount d = 1 \<and> length (Runs d) = 1 \<and>
    S d < int (length (Streets (TypeDesc d))) \<and> HasActive d \<and> 1 \<le> n \<longrightarrow>
      (\<exists>d'. ChangeRuns d n = Some (True, d') \<and>
            d' = d\<lparr>Runs := Runs d @ replicate (nat (n - 1)) (Dupe (Runs d ! 0)),
                   ST := S d, RunCount := n\<rparr> \<and>
            int (length (Runs d')) = n \<and> ST d' = S d \<and> RunCount d' = n \<and>
            (\<forall>st r0. wf_run st r0 \<and> content st r0 = Runs d ! 0 \<longrightarrow>
               (\<exists>rs st'.
                  ChangeRuns_loop_h [1 ..< nat n] (r0 # replicate (nat (n - 1)) nil_slot_h) st =
                    (rs, st') \<and>
                  map (content st') rs = Runs d' \<and>
                  (\<forall>i k. i < k \<and> k < nat n \<longrightarrow> apart st' (rs ! i) (rs ! k))))))"
proof (intro conjI impI)
  assume "\<not> (R d = 0 \<and> RunCount d = 1 \<and> length (Runs d) = 1 \<and>
        S d < int (length (Streets (TypeDesc d))) \<and> HasActive d)"
  then show "ChangeRuns d n = Some (False, d)"
    by (auto simp: ChangeRuns_def)
next
  assume a: "R d = 0 \<and> RunCount d = 1 \<and> length (Runs d) = 1 \<and>
    S d < int (length (Streets (TypeDesc d))) \<and> HasActive d \<and> 1 \<le> n"
  then obtain r where r: "Runs d = [r]"
    by (cases "Runs d") auto
  have n: "1 \<le> nat n" "nat (n - 1) = nat n - 1"
    using a by auto
  let ?d' = "d\<lparr>Runs := Runs d @ replicate (nat (n - 1)) (Dupe (Runs d ! 0)),
                ST := S d, RunCount := n\<rparr>"
  have "ChangeRuns_loop [1 ..< nat n] (Runs d @ replicate (nat (n - 1)) nil_slot) =
        Runs d @ replicate (nat (n - 1)) (Dupe (Runs d ! 0))"
    using ChangeRuns_loop_single [OF n(1), of r nil_slot] by (simp add: r n(2))
  then have c: "ChangeRuns d n = Some (True, ?d')"
    using a by (simp add: ChangeRuns_def)
  have l: "int (length (Runs ?d')) = n"
    using a by (simp add: r)
  have h: "\<exists>rs st'.
      ChangeRuns_loop_h [1 ..< nat n] (r0 # replicate (nat (n - 1)) nil_slot_h) st = (rs, st') \<and>
      map (content st') rs = Runs ?d' \<and>
      (\<forall>i k. i < k \<and> k < nat n \<longrightarrow> apart st' (rs ! i) (rs ! k))"
    if "wf_run st r0 \<and> content st r0 = Runs d ! 0" for st r0
    using ChangeRuns_loop_h_copies [of st r0 "nat n"] that n by (simp add: r)
  show "\<exists>d'. ChangeRuns d n = Some (True, d') \<and>
            d' = d\<lparr>Runs := Runs d @ replicate (nat (n - 1)) (Dupe (Runs d ! 0)),
                   ST := S d, RunCount := n\<rparr> \<and>
            int (length (Runs d')) = n \<and> ST d' = S d \<and> RunCount d' = n \<and>
            (\<forall>st r0. wf_run st r0 \<and> content st r0 = Runs d ! 0 \<longrightarrow>
               (\<exists>rs st'.
                  ChangeRuns_loop_h [1 ..< nat n] (r0 # replicate (nat (n - 1)) nil_slot_h) st =
                    (rs, st') \<and>
                  map (content st') rs = Runs d' \<and>
                  (\<forall>i k. i < k \<and> k < nat n \<longrightarrow> apart st' (rs ! i) (rs ! k))))"
    using c l h by (intro exI [of _ ?d']) simp
qed

theorem ChangeRuns_splits_witness:
  "HasActive sample_flop \<and>
   ChangeRuns sample_flop 3 =
     Some (True, sample_flop
       \<lparr>Runs := [\<lparr>Discard = [New 4 0], Pockets = [[New 2 0], [New 3 0]],
                   Hi = [New 5 0, New 6 0], Lo = []\<rparr>,
                 \<lparr>Discard = [], Pockets = [[New 2 0], [New 3 0]],
                   Hi = [New 5 0, New 6 0], Lo = []\<rparr>,
                 \<lparr>Discard = [], Pockets = [[New 2 0], [New 3 0]],
                   Hi = [New 5 0, New 6 0], Lo = []\<rparr>],
        ST := 1, RunCount := 3\<rparr>) \<and>
   ChangeRuns sample_second_run 3 = Some (False, sample_second_run) \<and>
   wf_run sample_store sample_run_h \<and>
   content sample_store sample_run_h = Runs sample_flop ! 0 \<and>
   ChangeRuns_loop_h [1 ..< 3] [sample_run_h, nil_slot_h, nil_slot_h] sample_store =
     ([sample_run_h, sample_copy_h,
       \<lparr>Discard_h = Nil_slice, Pockets_h = Slice 2 2, Hi_h = Slice 9 2, Lo_h = Nil_slice\<rparr>],
      sample_store_split) \<and>
   apart sample_store_split sample_copy_h
     \<lparr>Discard_h = Nil_slice, Pockets_h = Slice 2 2, Hi_h = Slice 9 2, Lo_h = Nil_slice\<rparr>"
proof -
  have a: "HasActive sample_flop"
    by code_simp
  have b: "R sample_flop = 0 \<and> RunCount sample_flop = 1 \<and> length (Runs sample_flop) = 1 \<and>
    S sample_flop < int (length (Streets (TypeDesc sample_flop)))"
    by (simp add: sample_flop_def sample_dealt_def sample_desc_def)
  have c: "Dupe (Runs sample_flop ! 0) = \<lparr>Discard = [], Pockets = [[New 2 0], [New 3 0]],
                   Hi = [New 5 0, New 6 0], Lo = []\<rparr>"
    by (simp add: sample_flop_def Dupe_def upt_rec)
  have d: "\<not> (R sample_second_run = 0 \<and> RunCount sample_second_run = 1 \<and>
        length (Runs sample_second_run) = 1 \<and>
        S sample_second_run < int (length (Streets (TypeDesc sample_second_run))) \<and>
        HasActive sample_second_run)"
    by (simp add: sample_second_run_def)
  have e: "wf_run sample_store sample_run_h"
    "content sample_store sample_run_h = Runs sample_flop ! 0"
    by code_simp+
  have f: "ChangeRuns_loop_h [1 ..< 3] [sample_run_h, nil_slot_h, nil_slot_h] sample_store =
     ([sample_run_h, sample_copy_h,
       \<lparr>Discard_h = Nil_slice, Pockets_h = Slice 2 2, Hi_h = Slice 9 2, Lo_h = Nil_slice\<rparr>],
      sample_store_split)"
    by code_simp
  have "ChangeRuns sample_second_run 3 = Some (False, sample_second_run)"
    using ChangeRuns_splits [of sample_second_run 3] d by blast
  moreover have prem: "R sample_flop = 0 \<and> RunCount sample_flop = 1 \<and>
      length (Runs sample_flop) = 1 \<and>
      S sample_flop < int (length (Streets (TypeDesc sample_flop))) \<and>
      HasActive sample_flop \<and> (1::int) \<le> 3"
    using a b by simp
  from ChangeRuns_splits [of sample_flop 3, THEN conjunct2, rule_format, OF prem]
  obtain d' where g0: "ChangeRuns sample_flop 3 = Some (True, d')"
    "d' = sample_flop\<lparr>Runs := Runs sample_flop @
                replicate (nat (3 - 1)) (Dupe (Runs sample_flop ! 0)),
              ST := S sample_flop, RunCount := 3\<rparr>"
    and h: "\<forall>st r0. wf_run st r0 \<and> content st r0 = Runs sample_flop ! 0 \<longrightarrow>
       (\<exists>rs st'. ChangeRuns_loop_h [1 ..< nat 3] (r0 # replicate (nat (3 - 1)) nil_slot_h) st =
            (rs, st') \<and> map (content st') rs = Runs d' \<and>
          (\<forall>i k. i < k \<and> k < nat 3 \<longrightarrow> apart st' (rs ! i) (rs ! k)))"
    by blast
  have g: "ChangeRuns sample_flop 3 =
      Some (True, sample_flop\<lparr>Runs := Runs sample_flop @
                replicate (nat (3 - 1)) (Dupe (Runs sample_flop ! 0)),
              ST := S sample_flop, RunCount := 3\<rparr>)"
    using g0 by simp
  moreover have "apart sample_store_split sample_copy_h
     \<lparr>Discard_h = Nil_slice, Pockets_h = Slice 2 2, Hi_h = Slice 9 2, Lo_h = Nil_slice\<rparr>"
  proof -
    from h [rule_format, of sample_store sample_run_h] e obtain rs st' where
      k: "ChangeRuns_loop_h [1 ..< nat 3] (sample_run_h # replicate (nat (3 - 1)) nil_slot_h)
            sample_store = (rs, st')"
         "\<forall>i k. i < k \<and> k < nat 3 \<longrightarrow> apart st' (rs ! i) (rs ! k)"
      by blast
    have "nat 3 = 3" "replicate (nat (3 - 1)) nil_slot_h = [nil_slot_h, nil_slot_h]"
      by (simp_all add: eval_nat_numeral)
    with k(1) f have "rs = [sample_run_h, sample_copy_h,
       \<lparr>Discard_h = Nil_slice, Pockets_h = Slice 2 2, Hi_h = Slice 9 2, Lo_h = Nil_slice\<rparr>]"
      "st' = sample_store_split"
      by simp_all
    with k(2) [rule_format, of 1 2] show ?thesis
      by simp
  qed
  ultimately show ?thesis
    using a e f g unfolding c by (simp add: sample_flop_def eval_nat_numeral)
qed

text \<open>
  Claim C4 as stated fails: the run appended after the flop has no discard pile while the
  run it was copied from holds the burnt card, and \<^verbatim>\<open>ChangeRuns(0)\<close> panics in
  \<^verbatim>\<open>make([]*Run, runs-1)\<close>.
\<close>

theorem ChangeRuns_counterexample:
  "ChangeRuns sample_flop 2 = Some (True, sample_flop_split) \<and>
   Discard (Runs sample_flop_split ! 0) = [New 4 0] \<and>
   Discard (Runs sample_flop_split ! 1) = [] \<and>
   ChangeRuns sample_flop 0 = None"
  by code_simp

end
